theory Spec2Isabelle
  imports
    Main
    "HOL-Library.Char_ord"
    "HOL-Library.List_Lexorder"
    "HOL-Library.Product_Lexorder"
    "HOL-Library.Sublist"
    "HOL-Library.Multiset"
begin

section \<open>Text: characters, case, whitespace\<close>

text \<open>
  Labels and variable names are modelled as ASCII text: a \<^typ>\<open>string\<close> is a list of
  bytes, \<open>upper\<close> maps \<open>a..z\<close> to \<open>A..Z\<close> and leaves every other byte alone, and the
  whitespace and word classes are the ASCII parts of Python's \<open>str.isspace\<close> and of
  the regular-expression class \<open>\w\<close>.
\<close>

definition to_upper :: "char \<Rightarrow> char" where
  "to_upper c =
     (if CHR ''a'' \<le> c \<and> c \<le> CHR ''z'' then char_of (of_char c - (32::nat)) else c)"

definition upper :: "string \<Rightarrow> string" where
  "upper s = map to_upper s"

text \<open>\<open>str.isspace\<close> on ASCII: tab, line feed, vertical tab, form feed, carriage
  return, the four separators \<open>0x1C..0x1F\<close> and the blank.\<close>

definition is_space :: "char \<Rightarrow> bool" where
  "is_space c = (let n = (of_char c :: nat) in (9 \<le> n \<and> n \<le> 13) \<or> (28 \<le> n \<and> n \<le> 32))"

text \<open>The class \<open>\w\<close> on ASCII: letters, digits and the underscore.\<close>

definition is_word :: "char \<Rightarrow> bool" where
  "is_word c =
     ((CHR ''a'' \<le> c \<and> c \<le> CHR ''z'') \<or> (CHR ''A'' \<le> c \<and> c \<le> CHR ''Z'') \<or>
      (CHR ''0'' \<le> c \<and> c \<le> CHR ''9'') \<or> c = CHR ''_'')"

text \<open>\<open>str.strip()\<close>: drop leading and trailing whitespace.\<close>

definition strip :: "string \<Rightarrow> string" where
  "strip s = rev (dropWhile is_space (rev (dropWhile is_space s)))"

text \<open>The substring test \<open>sub in s\<close>.\<close>

fun contains :: "string \<Rightarrow> string \<Rightarrow> bool" where
  "contains sub [] = (sub = [])"
| "contains sub (c # cs) = (prefix sub (c # cs) \<or> contains sub cs)"

section \<open>Regular expressions\<close>

text \<open>
  The fragment of Python's \<open>re\<close> syntax that the patterns of \<open>semantic_matcher.py\<close>
  use: literals, the greedy \<open>\s*\<close>, an optional item \<open>r?\<close>, alternation, sequence,
  the anchor \<open>^\<close> and the word boundary \<open>\b\<close>.
\<close>

datatype regex =
    Lit string
  | Spaces
  | Opt regex
  | Alt regex regex
  | Seq regex regex
  | Bol
  | Wordb

text \<open>
  \<open>ends r s i\<close> lists the positions at which a match of \<open>r\<close> that starts at position
  \<open>i\<close> of \<open>s\<close> can end, in the order in which the backtracking matcher tries them:
  the greedy \<open>\s*\<close> offers its longest run first, \<open>r?\<close> tries \<open>r\<close> before the empty
  match, an alternation tries its left branch first.
\<close>

definition at_boundary :: "string \<Rightarrow> nat \<Rightarrow> bool" where
  "at_boundary s i =
     ((0 < i \<and> i \<le> length s \<and> is_word (s ! (i - 1))) \<noteq> (i < length s \<and> is_word (s ! i)))"

fun ends :: "regex \<Rightarrow> string \<Rightarrow> nat \<Rightarrow> nat list" where
  "ends (Lit w) s i = (if take (length w) (drop i s) = w then [i + length w] else [])"
| "ends Spaces s i = rev [i ..< Suc (i + length (takeWhile is_space (drop i s)))]"
| "ends (Opt r) s i = ends r s i @ [i]"
| "ends (Alt r1 r2) s i = ends r1 s i @ ends r2 s i"
| "ends (Seq r1 r2) s i = concat (map (ends r2 s) (ends r1 s i))"
| "ends Bol s i = (if i = 0 then [i] else [])"
| "ends Wordb s i = (if at_boundary s i then [i] else [])"

text \<open>\<open>re.search(r, s)\<close> as a truth value: some start position admits a match.\<close>

definition re_search :: "regex \<Rightarrow> string \<Rightarrow> bool" where
  "re_search r s = list_ex (\<lambda>i. ends r s i \<noteq> []) [0 ..< Suc (length s)]"

text \<open>
  \<open>re.sub(r, '', s)\<close>: scan the positions from the left; at a position not yet
  consumed take the first match the matcher finds, delete it and resume after it;
  otherwise copy the character. The second argument of \<open>sub_scan\<close> is the list of
  positions still to visit, the third the position up to which the last match has
  consumed the text. (None of the patterns used here matches the empty string; an
  empty match deletes nothing.)
\<close>

fun sub_scan :: "regex \<Rightarrow> string \<Rightarrow> nat list \<Rightarrow> nat \<Rightarrow> string" where
  "sub_scan r s [] u = []"
| "sub_scan r s (i # is) u =
     (if i < u then sub_scan r s is u
      else (case ends r s i of
              [] \<Rightarrow> s ! i # sub_scan r s is u
            | e # _ \<Rightarrow> (if i < e then sub_scan r s is e else s ! i # sub_scan r s is u)))"

definition re_sub_del :: "regex \<Rightarrow> string \<Rightarrow> string" where
  "re_sub_del r s = sub_scan r s [0 ..< length s] 0"

text \<open>A group of alternative words: \<open>(W1|W2|...)\<close>.\<close>

fun words :: "string list \<Rightarrow> regex" where
  "words [] = Lit ''''"
| "words [w] = Lit w"
| "words (w # ws) = Alt (Lit w) (words ws)"

text \<open>\<open>\b(W1|W2|...)\b\<close>\<close>

definition word_of :: "string list \<Rightarrow> regex" where
  "word_of ws = Seq Wordb (Seq (words ws) Wordb)"

section \<open>Label Normalizer\<close>

text \<open>A cell of an object column: a string, or one of the missing values that
  \<open>pd.isna\<close> recognises. \<open>str_of\<close> is Python's \<open>str()\<close> on such a cell.\<close>

datatype cell = Str string | NaN | PyNone

fun isna :: "cell \<Rightarrow> bool" where
  "isna (Str _) = False"
| "isna NaN = True"
| "isna PyNone = True"

fun str_of :: "cell \<Rightarrow> string" where
  "str_of (Str s) = s"
| "str_of NaN = ''nan''"
| "str_of PyNone = ''None''"

text \<open>\<open>^RC-\s*\<close>\<close>

definition rc_prefix :: regex where
  "rc_prefix = Seq Bol (Seq (Lit ''RC-'') Spaces)"

text \<open>\<open>^(ADULT|YOUTH):\s*\<close>\<close>

definition age_prefix :: regex where
  "age_prefix = Seq Bol (Seq (words [''ADULT'', ''YOUTH'']) (Seq (Lit '':'') Spaces))"

text \<open>\<open>\s*-?\s*EVER\s*USED\<close>\<close>

definition ever_used :: regex where
  "ever_used =
     Seq Spaces (Seq (Opt (Lit ''-'')) (Seq Spaces (Seq (Lit ''EVER'') (Seq Spaces (Lit ''USED'')))))"

definition strip_ever_used :: "string \<Rightarrow> string" where
  "strip_ever_used s =
     (if contains ''LIFETIME'' s \<or> contains ''EVER'' s then re_sub_del ever_used s else s)"

definition clean_label :: "cell \<Rightarrow> string" where
  "clean_label c =
     (if isna c then ''''
      else strip (strip_ever_used (re_sub_del age_prefix (re_sub_del rc_prefix
             (strip (upper (str_of c)))))))"

section \<open>Feature Extractor\<close>

definition substance_patterns :: "(string \<times> regex) list" where
  "substance_patterns =
     [(''marijuana'', word_of [''MARIJUANA'', ''MRJ'', ''MJ'']),
      (''cocaine'', word_of [''COCAINE'', ''COC'', ''CRACK'', ''CRK'']),
      (''heroin'', word_of [''HEROIN'', ''HER'']),
      (''hallucinogen'', word_of [''HALLUCINOGEN'', ''HAL'', ''LSD'', ''PCP'']),
      (''alcohol'', word_of [''ALCOHOL'', ''ALC'']),
      (''tobacco'', word_of [''TOBACCO'', ''CIG'', ''SMOKE'']),
      (''stimulant'', word_of [''STIMULANT'', ''STIM'', ''METH'']),
      (''sedative'', word_of [''SEDATIVE'', ''SED'']),
      (''tranquilizer'', word_of [''TRANQUILIZER'', ''TRQ'']),
      (''painkiller'', word_of [''PAIN'', ''ANALGESIC'', ''ANL'']),
      (''inhalant'', word_of [''INHALANT'', ''INH''])]"

text \<open>\<open>\b(PAST\s*(A|B|C))\b\<close>\<close>

definition past :: "string list \<Rightarrow> regex" where
  "past ws = Seq Wordb (Seq (Seq (Lit ''PAST'') (Seq Spaces (words ws))) Wordb)"

definition time_patterns :: "(string \<times> regex) list" where
  "time_patterns =
     [(''lifetime'', word_of [''LIFETIME'', ''EVER'']),
      (''past_30_days'', past [''30'', ''MONTH'', ''MO'']),
      (''past_year'', past [''YEAR'', ''12'', ''YR''])]"

text \<open>The loop \<open>for name, pattern in patterns: if re.search(...): ...; break\<close> over an
  initial value \<open>d\<close>.\<close>

fun first_match :: "string \<Rightarrow> (string \<times> regex) list \<Rightarrow> string \<Rightarrow> string" where
  "first_match d [] text = d"
| "first_match d ((name, pattern) # ps) text =
     (if re_search pattern text then name else first_match d ps text)"

record features =
  substance :: string
  time_period :: string
  measure_type :: string

definition feature_text :: "string \<Rightarrow> cell \<Rightarrow> string" where
  "feature_text variable_name variable_label = upper (variable_name @ '' '' @ str_of variable_label)"

text \<open>\<open>\b(FLAG|INDICATOR)\b\<close>, \<open>\b(AGE|FIRST)\b\<close> and \<open>\b(ABUSE|DEPEND)\b\<close>\<close>

definition indicator_tokens :: regex where
  "indicator_tokens = word_of [''FLAG'', ''INDICATOR'']"

definition age_tokens :: regex where
  "age_tokens = word_of [''AGE'', ''FIRST'']"

definition abuse_tokens :: regex where
  "abuse_tokens = word_of [''ABUSE'', ''DEPEND'']"

definition measure_of :: "string \<Rightarrow> string" where
  "measure_of text =
     (if re_search indicator_tokens text then ''use_indicator''
      else if re_search age_tokens text then ''age_first_use''
      else if re_search abuse_tokens text then ''abuse_dependence''
      else ''use'')"

definition extract_semantic_features :: "string \<Rightarrow> cell \<Rightarrow> features" where
  "extract_semantic_features variable_name variable_label =
     (let text = feature_text variable_name variable_label in
      \<lparr> substance = first_match ''other'' substance_patterns text,
        time_period = first_match '''' time_patterns text,
        measure_type = measure_of text \<rparr>)"

section \<open>Tables\<close>

text \<open>
  A data frame is a list of rows. \<open>base_row\<close> is a row of the per-year variable
  metadata, \<open>conc_row\<close> a row of the combined concordance table, \<open>meta_row\<close> a row
  of the merged table that \<open>compute_semantic_bridges\<close> receives, and \<open>out_row\<close> a
  row of the table it returns (the three feature columns are kept together in
  \<open>features_col\<close>).
\<close>

datatype failure = KeyError | NoStataMetadata

record base_row =
  year :: int
  variable_name :: string
  variable_label :: cell
  value_labels :: string

record conc_row =
  conc_year :: int
  conc_variable_name :: string
  conc_confirmed_group :: string
  conc_concordance_file :: string

record meta_row = base_row +
  question_text :: string
  confirmed_group :: cell
  concordance_file :: cell
  cross_year_confirmed :: cell

record out_row = meta_row +
  clean_label_col :: string
  features_col :: features
  cross_year_narrow :: string

text \<open>Decimal rendering of an integer, as an f-string prints \<open>int(year)\<close>.\<close>

definition digit :: "nat \<Rightarrow> char" where
  "digit d = char_of (48 + d)"

fun str_nat :: "nat \<Rightarrow> string" where
  "str_nat n = (if n < 10 then [digit n] else str_nat (n div 10) @ [digit (n mod 10)])"

declare str_nat.simps [simp del]

definition str_int :: "int \<Rightarrow> string" where
  "str_int i = (if i < 0 then ''-'' @ str_nat (nat (- i)) else str_nat (nat i))"

section \<open>Key Builder\<close>

definition narrow_key_of :: "'a meta_row_scheme \<Rightarrow> string" where
  "narrow_key_of r =
     (let f = extract_semantic_features (variable_name r) (variable_label r) in
      variable_name r @ ''|'' @ clean_label (variable_label r) @ ''|'' @ time_period f @ ''|'' @
      substance f)"

section \<open>Equivalence Expander\<close>

text \<open>
  The expander works on the two columns \<open>cross_year_confirmed\<close> and \<open>narrow_key\<close>,
  here a list of pairs. \<open>has_confirmed\<close> is the row mask
  \<open>notna() & (!= '')\<close>.
\<close>

definition has_confirmed :: "cell \<Rightarrow> bool" where
  "has_confirmed c = (\<not> isna c \<and> c \<noteq> Str '''')"

definition confirmed_pairs :: "(cell \<times> string) list \<Rightarrow> (string \<times> string) list" where
  "confirmed_pairs df = map (\<lambda>(c, k). (str_of c, k)) (filter (\<lambda>(c, k). has_confirmed c) df)"

text \<open>\<open>Series.unique()\<close>: the distinct values in order of first appearance.\<close>

definition unique :: "'a list \<Rightarrow> 'a list" where
  "unique xs = rev (remdups (rev xs))"

text \<open>\<open>groupby('cross_year_confirmed')[key_col].unique().items()\<close>: the groups come
  in sorted order of the confirmed id (\<open>groupby\<close> sorts its keys), each with the
  distinct keys of its rows.\<close>

definition groupby_unique :: "(string \<times> string) list \<Rightarrow> (string \<times> string list) list" where
  "groupby_unique ps =
     map (\<lambda>c. (c, unique (map snd (filter (\<lambda>(c', k). c' = c) ps)))) (sort (remdups (map fst ps)))"

text \<open>The inner loop \<open>for key in keys: if key not in key_to_confirmed: ...\<close>\<close>

fun claim_keys :: "string \<Rightarrow> string list \<Rightarrow> (string \<rightharpoonup> string) \<Rightarrow> (string \<rightharpoonup> string)" where
  "claim_keys c [] m = m"
| "claim_keys c (k # ks) m =
     claim_keys c ks (case m k of None \<Rightarrow> m(k \<mapsto> c) | Some _ \<Rightarrow> m)"

text \<open>The outer loop over the groups.\<close>

fun claim_groups :: "(string \<times> string list) list \<Rightarrow> (string \<rightharpoonup> string) \<Rightarrow> (string \<rightharpoonup> string)" where
  "claim_groups [] m = m"
| "claim_groups ((c, ks) # gs) m = claim_groups gs (claim_keys c ks m)"

definition key_to_confirmed :: "(cell \<times> string) list \<Rightarrow> (string \<rightharpoonup> string)" where
  "key_to_confirmed df = claim_groups (groupby_unique (confirmed_pairs df)) Map.empty"

definition expand_keys_with_confirmed :: "(cell \<times> string) list \<Rightarrow> string list" where
  "expand_keys_with_confirmed df =
     (if \<not> list_ex (\<lambda>(c, k). has_confirmed c) df then map snd df
      else map (\<lambda>(c, k). case key_to_confirmed df k of None \<Rightarrow> k | Some c' \<Rightarrow> c') df)"

section \<open>Bridge Assigner\<close>

text \<open>
  The assigner works on the three columns \<open>narrow_key\<close>, \<open>year\<close> and
  \<open>variable_name\<close>, here a list of triples. \<open>narrow_group_info\<close> sorts the rows by
  \<open>(year, variable_name)\<close> and keeps, for a key, the first row of its group.
\<close>

definition narrow_group_info :: "(string \<times> int \<times> string) list \<Rightarrow> string \<Rightarrow> (int \<times> string) option" where
  "narrow_group_info df k = map_option snd (find (\<lambda>(k', yv). k' = k) (sort_key snd df))"

definition narrow_id :: "string \<Rightarrow> int \<Rightarrow> string" where
  "narrow_id v y = v @ ''_narrow_'' @ str_int y"

text \<open>A column computed row by row, where a row may raise.\<close>

fun collect :: "('e + 'a) list \<Rightarrow> 'e + 'a list" where
  "collect [] = Inr []"
| "collect (x # xs) =
     (case x of Inl e \<Rightarrow> Inl e
      | Inr a \<Rightarrow> (case collect xs of Inl e \<Rightarrow> Inl e | Inr as \<Rightarrow> Inr (a # as)))"

text \<open>\<open>narrow_group_info.at[k, ...]\<close> raises \<open>KeyError\<close> for a key without a group.\<close>

definition assign_bridges :: "(string \<times> int \<times> string) list \<Rightarrow> failure + string list" where
  "assign_bridges df =
     collect (map (\<lambda>(k, yv). case narrow_group_info df k of
                                 None \<Rightarrow> Inl KeyError
                               | Some (y, v) \<Rightarrow> Inr (narrow_id v y)) df)"

section \<open>The bridge computation\<close>

definition bridged :: "meta_row \<Rightarrow> string \<Rightarrow> out_row" where
  "bridged r b =
     meta_row.extend r
       (out_row.fields (clean_label (variable_label r))
          (extract_semantic_features (variable_name r) (variable_label r)) b)"

definition expanded_keys :: "meta_row list \<Rightarrow> string list" where
  "expanded_keys df =
     expand_keys_with_confirmed (map (\<lambda>r. (cross_year_confirmed r, narrow_key_of r)) df)"

definition compute_semantic_bridges :: "meta_row list \<Rightarrow> failure + out_row list" where
  "compute_semantic_bridges df =
     (case assign_bridges (zip (expanded_keys df) (map (\<lambda>r. (year r, variable_name r)) df)) of
        Inl e \<Rightarrow> Inl e
      | Inr bs \<Rightarrow> Inr (map2 bridged df bs))"

section \<open>Metadata Merger\<close>

text \<open>The question text of a row: \<open>ddi_data[year][variable_name]\<close> when present,
  the empty string otherwise.\<close>

type_synonym ddi = "int \<rightharpoonup> (string \<rightharpoonup> string)"

definition question_of :: "ddi \<Rightarrow> base_row \<Rightarrow> string" where
  "question_of ddi_data r =
     (case ddi_data (year r) of
        None \<Rightarrow> []
      | Some d \<Rightarrow> (case d (variable_name r) of None \<Rightarrow> [] | Some q \<Rightarrow> q))"

definition with_concordance :: "ddi \<Rightarrow> base_row \<Rightarrow> cell \<Rightarrow> cell \<Rightarrow> meta_row" where
  "with_concordance ddi_data r g f =
     base_row.extend r (meta_row.fields (question_of ddi_data r) g f (Str ''''))"

text \<open>The concordance entries that a row joins with on \<open>(year, variable_name)\<close>.\<close>

definition matches :: "conc_row list \<Rightarrow> base_row \<Rightarrow> conc_row list" where
  "matches conc r =
     filter (\<lambda>c. conc_year c = year r \<and> conc_variable_name c = variable_name r) conc"

text \<open>\<open>df_stata.merge(df_concordance, on=['year', 'variable_name'], how='left')\<close>:
  every row once per matching entry, in the order of the entries, and once with
  missing values when there is none.\<close>

definition merge_left :: "ddi \<Rightarrow> base_row list \<Rightarrow> conc_row list \<Rightarrow> meta_row list" where
  "merge_left ddi_data base conc =
     concat (map (\<lambda>r. case matches conc r of
                         [] \<Rightarrow> [with_concordance ddi_data r NaN NaN]
                       | ms \<Rightarrow> map (\<lambda>c. with_concordance ddi_data r
                                      (Str (conc_confirmed_group c)) (Str (conc_concordance_file c))) ms)
                 base)"

definition has_concordance :: "meta_row \<Rightarrow> bool" where
  "has_concordance r = (\<not> isna (confirmed_group r) \<and> confirmed_group r \<noteq> Str '''')"

definition add_cross_year_confirmed :: "meta_row \<Rightarrow> meta_row" where
  "add_cross_year_confirmed r =
     (if has_concordance r
      then r\<lparr>cross_year_confirmed :=
               Str (variable_name r @ ''_'' @ str_of (concordance_file r) @ ''_'' @
                    str_of (confirmed_group r))\<rparr>
      else r\<lparr>cross_year_confirmed := Str ''''\<rparr>)"

definition build_variable_metadata :: "base_row list \<Rightarrow> ddi \<Rightarrow> conc_row list \<Rightarrow> failure + out_row list" where
  "build_variable_metadata df_stata ddi_data df_concordance =
     (if df_stata = [] then Inl NoStataMetadata
      else compute_semantic_bridges (map add_cross_year_confirmed
             (if df_concordance \<noteq> [] then merge_left ddi_data df_stata df_concordance
              else map (\<lambda>r. with_concordance ddi_data r (Str '''') (Str '''')) df_stata)))"

section \<open>Example tables\<close>

text \<open>
  Three rows of the variable \<open>MRJFLAG\<close> as the merger would hand them to
  \<open>compute_semantic_bridges\<close>. The rows of 2002 and 2015 carry the same label, so
  the same narrow key, under two confirmed ids; the rows of 2015 and 2016 share a
  confirmed id and differ in their label.
\<close>

definition conflict_rows :: "meta_row list" where
  "conflict_rows =
     [\<lparr>year = 2002, variable_name = ''MRJFLAG'', variable_label = Str ''MARIJUANA - EVER USED'',
       value_labels = [], question_text = [], confirmed_group = Str ''1'',
       concordance_file = Str ''f.xlsx'', cross_year_confirmed = Str ''MRJFLAG_f.xlsx_1''\<rparr>,
      \<lparr>year = 2015, variable_name = ''MRJFLAG'', variable_label = Str ''MARIJUANA - EVER USED'',
       value_labels = [], question_text = [], confirmed_group = Str ''2'',
       concordance_file = Str ''f.xlsx'', cross_year_confirmed = Str ''MRJFLAG_f.xlsx_2''\<rparr>,
      \<lparr>year = 2016, variable_name = ''MRJFLAG'', variable_label = Str ''EVER USED MARIJUANA OR HASHISH'',
       value_labels = [], question_text = [], confirmed_group = Str ''2'',
       concordance_file = Str ''f.xlsx'', cross_year_confirmed = Str ''MRJFLAG_f.xlsx_2''\<rparr>]"

text \<open>
  Two base records of 2002 and 2010 whose variable names differ (\<open>MRJFLAG\<close>,
  \<open>MARJFLAG\<close>), with the concordance entries that put both in the confirmed group
  \<open>MRJ_01\<close>; no question text.
\<close>

definition no_question_text :: ddi where
  "no_question_text = Map.empty"

definition marj_base :: "base_row list" where
  "marj_base =
     [\<lparr>year = 2002, variable_name = ''MRJFLAG'', variable_label = Str ''MARIJUANA - EVER USED'',
       value_labels = []\<rparr>,
      \<lparr>year = 2010, variable_name = ''MARJFLAG'',
       variable_label = Str ''EVER USED MARIJUANA OR HASHISH'', value_labels = []\<rparr>]"

definition marj_concordance :: "conc_row list" where
  "marj_concordance =
     [\<lparr>conc_year = 2002, conc_variable_name = ''MRJFLAG'', conc_confirmed_group = ''MRJ_01'',
       conc_concordance_file = ''ConcatPUFComparability_2019.xlsx''\<rparr>,
      \<lparr>conc_year = 2010, conc_variable_name = ''MARJFLAG'', conc_confirmed_group = ''MRJ_01'',
       conc_concordance_file = ''ConcatPUFComparability_2019.xlsx''\<rparr>]"

text \<open>A concordance in which both files have an entry for \<open>MRJFLAG\<close> in 2002.\<close>

definition two_file_concordance :: "conc_row list" where
  "two_file_concordance =
     [\<lparr>conc_year = 2002, conc_variable_name = ''MRJFLAG'', conc_confirmed_group = ''MRJ_01'',
       conc_concordance_file = ''ConcatPUFComparability_2019.xlsx''\<rparr>,
      \<lparr>conc_year = 2002, conc_variable_name = ''MRJFLAG'', conc_confirmed_group = ''MRJ_01'',
       conc_concordance_file = ''PUFComparability_2024.xlsx''\<rparr>]"

section \<open>Auxiliary notions for the properties\<close>

text \<open>A pattern without the anchor \<open>^\<close>: its matches inside a text do not depend on
  how far from the start of the text they are.\<close>

fun no_bol :: "regex \<Rightarrow> bool" where
  "no_bol Bol = False"
| "no_bol (Opt r) = no_bol r"
| "no_bol (Alt r1 r2) = (no_bol r1 \<and> no_bol r2)"
| "no_bol (Seq r1 r2) = (no_bol r1 \<and> no_bol r2)"
| "no_bol _ = True"

text \<open>
  The Label Normalizer as the specification words it, for comparison with
  \<open>clean_label\<close>: the last rule strips a \<^emph>\<open>trailing\<close> \<open>(-) EVER USED\<close> phrase, that
  is, a match of the phrase that ends where the text ends.
\<close>

definition strip_trailing_ever_used :: "string \<Rightarrow> string" where
  "strip_trailing_ever_used s =
     (case find (\<lambda>i. length s \<in> set (ends ever_used s i)) [0 ..< Suc (length s)] of
        None \<Rightarrow> s
      | Some i \<Rightarrow> take i s)"

definition clean_label_spec :: "cell \<Rightarrow> string" where
  "clean_label_spec c =
     (if isna c then []
      else let s = re_sub_del age_prefix (re_sub_del rc_prefix (strip (upper (str_of c))))
           in if contains ''LIFETIME'' s \<or> contains ''EVER'' s
              then strip_trailing_ever_used s else s)"

text \<open>
  Closed forms of the two whole-table stages, used to state what they compute:
  \<open>bridge_id df k\<close> is the id of the group of key \<open>k\<close> in the three-column frame
  \<open>df\<close> (the empty string stands for a key that has no group), \<open>expanded_key df r\<close>
  is the key of row \<open>r\<close> after the expansion over the table \<open>df\<close>, and
  \<open>bridge_of df r\<close> the bridge id of row \<open>r\<close> in the table \<open>df\<close>.
\<close>

definition bridge_id :: "(string \<times> int \<times> string) list \<Rightarrow> string \<Rightarrow> string" where
  "bridge_id df k = (case narrow_group_info df k of None \<Rightarrow> [] | Some (y, v) \<Rightarrow> narrow_id v y)"

definition expanded_key :: "meta_row list \<Rightarrow> meta_row \<Rightarrow> string" where
  "expanded_key df r =
     (case key_to_confirmed (map (\<lambda>r. (cross_year_confirmed r, narrow_key_of r)) df) (narrow_key_of r) of
        None \<Rightarrow> narrow_key_of r
      | Some c \<Rightarrow> c)"

definition bridge_of :: "meta_row list \<Rightarrow> meta_row \<Rightarrow> string" where
  "bridge_of df r =
     bridge_id (map (\<lambda>r. (expanded_key df r, year r, variable_name r)) df) (expanded_key df r)"

section \<open>Properties of the text and pattern primitives\<close>

lemma to_upper_idem: "to_upper (to_upper c) = to_upper c"
  by (auto simp: to_upper_def less_eq_char_def)

lemma upper_fixed: "\<forall>c\<in>set s. to_upper c = c \<Longrightarrow> upper s = s"
  by (simp add: upper_def map_idI)

lemma set_upper_fixed: "c \<in> set (upper s) \<Longrightarrow> to_upper c = c"
  by (auto simp: upper_def to_upper_idem)

lemma upper_append: "upper (a @ b) = upper a @ upper b"
  by (simp add: upper_def)

lemma set_strip: "set (strip s) \<subseteq> set s"
proof -
  have "set (dropWhile is_space (rev (dropWhile is_space s))) \<subseteq> set (rev (dropWhile is_space s))"
    by (meson set_dropWhileD subsetI)
  moreover have "set (dropWhile is_space s) \<subseteq> set s"
    by (meson set_dropWhileD subsetI)
  ultimately show ?thesis by (auto simp: strip_def)
qed

lemma dropWhile_fixed: "(xs = [] \<or> \<not> P (hd xs)) \<Longrightarrow> dropWhile P xs = xs"
  by (cases xs) auto

lemma strip_idem: "strip (strip s) = strip s"
proof -
  let ?a = "dropWhile is_space s"
  let ?b = "dropWhile is_space (rev ?a)"
  have b: "?b = [] \<or> \<not> is_space (hd ?b)"
    by (metis hd_dropWhile)
  have a: "?a = [] \<or> \<not> is_space (hd ?a)"
    by (metis hd_dropWhile)
  have "rev ?b = [] \<or> \<not> is_space (hd (rev ?b))"
  proof (cases "?b = []")
    case True then show ?thesis by simp
  next
    case False
    then have ne: "rev ?a \<noteq> []" by (metis dropWhile.simps(1))
    from False obtain ys where ys: "rev ?a = takeWhile is_space (rev ?a) @ ?b" by simp
    have "hd (rev ?b) = last ?b" using False by (simp add: hd_rev)
    also have "last ?b = last (rev ?a)" using False ys by (metis last_appendR)
    also have "\<dots> = hd ?a" using ne by (simp add: last_rev)
    finally show ?thesis using a ne by auto
  qed
  then have 1: "dropWhile is_space (rev ?b) = rev ?b" by (rule dropWhile_fixed)
  have 2: "dropWhile is_space ?b = ?b" using b by (rule dropWhile_fixed)
  show ?thesis unfolding strip_def by (simp add: 1 2)
qed

lemma ends_ge: "e \<in> set (ends r s i) \<Longrightarrow> i \<le> e"
proof (induction r arbitrary: i e)
  case (Seq r1 r2)
  then obtain m where "m \<in> set (ends r1 s i)" "e \<in> set (ends r2 s m)" by auto
  then show ?case using Seq.IH by (meson le_trans)
qed (auto split: if_splits)

lemma sub_scan_copy:
  "(\<And>i. k \<le> i \<Longrightarrow> u \<le> i \<Longrightarrow> i < length s \<Longrightarrow> ends r s i = []) \<Longrightarrow>
   sub_scan r s [k ..< length s] u = drop (max k u) s"
proof (induction "length s - k" arbitrary: k)
  case 0
  then show ?case by simp
next
  case (Suc n)
  then have k: "k < length s" and n: "n = length s - Suc k" by auto
  have upt: "[k ..< length s] = k # [Suc k ..< length s]" using k by (simp add: upt_conv_Cons)
  have IH: "sub_scan r s [Suc k ..< length s] u = drop (max (Suc k) u) s"
    using Suc.hyps(1)[OF n] Suc.prems by simp
  show ?case
  proof (cases "k < u")
    case True
    then have "max (Suc k) u = max k u" by simp
    then show ?thesis using True IH by (simp add: upt)
  next
    case False
    then have "ends r s k = []" using Suc.prems k by simp
    moreover have "drop k s = s ! k # drop (Suc k) s" using k by (simp add: Cons_nth_drop_Suc)
    moreover have "max (Suc k) u = Suc k" "max k u = k" using False by simp_all
    ultimately show ?thesis using False IH by (simp add: upt)
  qed
qed

lemma re_sub_del_no_match:
  assumes "\<not> re_search r s"
  shows "re_sub_del r s = s"
proof -
  have "\<And>i. i < length s \<Longrightarrow> ends r s i = []"
    using assms by (auto simp: re_search_def list_ex_iff)
  then show ?thesis
    using sub_scan_copy[of 0 0 s r] by (simp add: re_sub_del_def)
qed

lemma set_sub_scan: "\<forall>i\<in>set ps. i < length s \<Longrightarrow> set (sub_scan r s ps u) \<subseteq> set s"
  by (induction ps arbitrary: u) (auto split: list.splits)

lemma set_re_sub_del: "set (re_sub_del r s) \<subseteq> set s"
  unfolding re_sub_del_def by (rule set_sub_scan) simp

lemma re_sub_del_anchored:
  "re_sub_del (Seq Bol r) s = (case ends r s 0 of [] \<Rightarrow> s | e # _ \<Rightarrow> drop e s)"
proof (cases s)
  case Nil
  then show ?thesis by (simp add: re_sub_del_def split: list.splits)
next
  case (Cons c cs)
  then have "0 < length s" by simp
  then have upt: "[0 ..< length s] = 0 # [Suc 0 ..< length s]" by (rule upt_conv_Cons)
  have none: "\<And>i. Suc 0 \<le> i \<Longrightarrow> ends (Seq Bol r) s i = []" by simp
  have at0: "ends (Seq Bol r) s 0 = ends r s 0" by simp
  have copy: "\<And>u. sub_scan (Seq Bol r) s [Suc 0 ..< length s] u = drop (max (Suc 0) u) s"
    by (rule sub_scan_copy) (use none in blast)
  have s0: "s ! 0 # drop (Suc 0) s = s" using Cons by simp
  show ?thesis
  proof (cases "ends r s 0")
    case Nil
    then show ?thesis using s0 by (simp add: re_sub_del_def upt at0 copy del: ends.simps)
  next
    case (Cons e es)
    then show ?thesis using s0
      by (cases "0 < e") (simp_all add: re_sub_del_def upt at0 copy max_def del: ends.simps)
  qed
qed

lemma case_rev_upt:
  "(case rev [a ..< Suc (a + n)] of [] \<Rightarrow> x | e # _ \<Rightarrow> f e) = f (a + n)"
  by simp

lemma prefix_take: "prefix w s \<longleftrightarrow> take (length w) s = w"
  by (metis append_eq_conv_conj prefix_def take_is_prefix)

lemma ends_lit_spaces:
  "ends (Seq (Lit w) Spaces) s i =
     (if take (length w) (drop i s) = w
      then rev [i + length w ..< Suc (i + length w + length (takeWhile is_space (drop (i + length w) s)))]
      else [])"
  by simp

lemma re_sub_del_lit_prefix:
  "re_sub_del (Seq Bol (Seq (Lit w) Spaces)) s =
     (if prefix w s then dropWhile is_space (drop (length w) s) else s)"
  unfolding re_sub_del_anchored ends_lit_spaces prefix_take
  by (simp only: case_rev_upt drop_0 add_0 dropWhile_eq_drop drop_drop list.case if_distrib[of "\<lambda>l. case l of [] \<Rightarrow> _ | e # _ \<Rightarrow> _ e"] cong: if_cong)
    (simp add: add.commute)

lemma re_sub_del_rc_prefix:
  "re_sub_del rc_prefix s = (if prefix ''RC-'' s then dropWhile is_space (drop 3 s) else s)"
  unfolding rc_prefix_def re_sub_del_lit_prefix by (simp add: numeral_3_eq_3)

lemma prefix_append_take:
  "prefix (a @ c) s \<longleftrightarrow> take (length a) s = a \<and> take (length c) (drop (length a) s) = c"
proof
  assume "prefix (a @ c) s"
  then obtain t where "s = a @ c @ t" by (auto simp: prefix_def)
  then show "take (length a) s = a \<and> take (length c) (drop (length a) s) = c" by simp
next
  assume h: "take (length a) s = a \<and> take (length c) (drop (length a) s) = c"
  have "s = take (length a) s @ take (length c) (drop (length a) s) @ drop (length c) (drop (length a) s)"
    by (simp only: append_take_drop_id)
  then have "s = a @ c @ drop (length c) (drop (length a) s)" using h by simp
  then show "prefix (a @ c) s" by (metis append.assoc prefixI)
qed

lemma re_sub_del_alt_prefix:
  assumes "length a = length b" "a \<noteq> b"
  shows "re_sub_del (Seq Bol (Seq (Alt (Lit a) (Lit b)) (Seq (Lit c) Spaces))) s =
     (if prefix (a @ c) s \<or> prefix (b @ c) s
      then dropWhile is_space (drop (length a + length c) s) else s)"
proof -
  let ?R = "Seq (Lit c) Spaces"
  let ?n = "length a"
  have alt0: "ends (Alt (Lit a) (Lit b)) s 0 = (if take ?n s = a \<or> take ?n s = b then [?n] else [])"
    using assms by auto
  have seq: "ends (Seq (Alt (Lit a) (Lit b)) ?R) s 0 =
      concat (map (ends ?R s) (ends (Alt (Lit a) (Lit b)) s 0))"
    by (rule ends.simps(5))
  have alt: "ends (Seq (Alt (Lit a) (Lit b)) ?R) s 0 =
      (if take ?n s = a \<or> take ?n s = b then ends ?R s ?n else [])"
    unfolding seq alt0 by simp
  have R: "(case ends ?R s ?n of [] \<Rightarrow> s | e # _ \<Rightarrow> drop e s) =
      (if take (length c) (drop ?n s) = c then dropWhile is_space (drop (?n + length c) s) else s)"
    unfolding ends_lit_spaces
    by (simp only: case_rev_upt dropWhile_eq_drop drop_drop list.case
        if_distrib[of "\<lambda>l. case l of [] \<Rightarrow> _ | e # _ \<Rightarrow> _ e"] cong: if_cong)
      (simp add: add.commute)
  show ?thesis
  proof (cases "take ?n s = a \<or> take ?n s = b")
    case True
    then have "re_sub_del (Seq Bol (Seq (Alt (Lit a) (Lit b)) ?R)) s =
        (if take (length c) (drop ?n s) = c then dropWhile is_space (drop (?n + length c) s) else s)"
      unfolding re_sub_del_anchored alt using R by (simp only: if_True)
    then show ?thesis
      unfolding prefix_append_take using True assms by auto
  next
    case False
    then have "re_sub_del (Seq Bol (Seq (Alt (Lit a) (Lit b)) ?R)) s = s"
      unfolding re_sub_del_anchored alt by (simp only: if_False list.case)
    then show ?thesis
      unfolding prefix_append_take using False assms by auto
  qed
qed

lemma re_sub_del_age_prefix:
  "re_sub_del age_prefix s =
     (if prefix ''ADULT:'' s \<or> prefix ''YOUTH:'' s then dropWhile is_space (drop 6 s) else s)"
  using re_sub_del_alt_prefix[of "''ADULT''" "''YOUTH''" "'':''" s]
  by (simp add: age_prefix_def eval_nat_numeral)

section \<open>Properties of the Label Normalizer\<close>

lemma clean_label_upper: "upper (clean_label c) = clean_label c"
proof (cases "isna c")
  case True
  then show ?thesis by (simp add: upper_def clean_label_def)
next
  case False
  let ?u = "upper (str_of c)"
  have "set (clean_label c) \<subseteq> set ?u"
  proof -
    have 1: "set (strip ?u) \<subseteq> set ?u" by (rule set_strip)
    have 2: "set (re_sub_del rc_prefix (strip ?u)) \<subseteq> set (strip ?u)" by (rule set_re_sub_del)
    have 3: "set (re_sub_del age_prefix (re_sub_del rc_prefix (strip ?u)))
        \<subseteq> set (re_sub_del rc_prefix (strip ?u))" by (rule set_re_sub_del)
    have 4: "\<And>s. set (strip_ever_used s) \<subseteq> set s"
      using set_re_sub_del by (simp add: strip_ever_used_def)
    have 5: "set (clean_label c) \<subseteq> set (strip_ever_used (re_sub_del age_prefix (re_sub_del rc_prefix (strip ?u))))"
      using False set_strip by (simp add: clean_label_def)
    show ?thesis using 1 2 3 4 5 by blast
  qed
  then have "\<forall>x\<in>set (clean_label c). to_upper x = x"
    using set_upper_fixed by blast
  then show ?thesis by (rule upper_fixed)
qed

lemma clean_label_strip: "strip (clean_label c) = clean_label c"
proof (cases "isna c")
  case True
  then show ?thesis by (simp add: clean_label_def strip_def)
next
  case False
  then show ?thesis by (simp add: clean_label_def strip_idem)
qed

text \<open>
  Claim C3, as amended. The Label Normalizer strips each prefix once, in a fixed
  order, and deletes the phrases it finds in one pass; it is idempotent on every
  label whose cleaned form is settled, that is, does not itself begin with \<open>RC-\<close>,
  \<open>ADULT:\<close> or \<open>YOUTH:\<close> and contains no further \<open>(-) EVER USED\<close> phrase:
  for such a label \<open>x\<close> (a missing one included),
  \<open>clean_label (clean_label x) = clean_label x\<close>.
\<close>

theorem clean_label_idempotent_when_settled:
  assumes "\<not> prefix ''RC-'' (clean_label x)"
    and "\<not> prefix ''ADULT:'' (clean_label x)"
    and "\<not> prefix ''YOUTH:'' (clean_label x)"
    and "\<not> re_search ever_used (clean_label x)"
  shows "clean_label (Str (clean_label x)) = clean_label x"
proof -
  let ?y = "clean_label x"
  have 1: "strip (upper ?y) = ?y" by (simp only: clean_label_upper clean_label_strip)
  have 2: "re_sub_del rc_prefix ?y = ?y" using assms(1) by (simp only: re_sub_del_rc_prefix if_False)
  have 3: "re_sub_del age_prefix ?y = ?y"
    using assms(2,3) by (simp only: re_sub_del_age_prefix simp_thms if_False)
  have 4: "strip_ever_used ?y = ?y"
    using re_sub_del_no_match[OF assms(4)] by (simp add: strip_ever_used_def)
  have "clean_label (Str ?y) =
      strip (strip_ever_used (re_sub_del age_prefix (re_sub_del rc_prefix (strip (upper ?y)))))"
    by (simp add: clean_label_def[of "Str (clean_label x)"])
  also have "\<dots> = ?y" by (simp only: 1 2 3 4 clean_label_strip)
  finally show ?thesis .
qed

text \<open>The hypotheses of the amended C3 hold for the label
  \<open>RC-ADULT: COCAINE - EVER USED\<close>, whose cleaned form is \<open>COCAINE\<close>.\<close>

theorem clean_label_idempotent_when_settled_witness:
  "\<not> prefix ''RC-'' (clean_label (Str ''RC-ADULT: COCAINE - EVER USED'')) \<and>
   \<not> prefix ''ADULT:'' (clean_label (Str ''RC-ADULT: COCAINE - EVER USED'')) \<and>
   \<not> prefix ''YOUTH:'' (clean_label (Str ''RC-ADULT: COCAINE - EVER USED'')) \<and>
   \<not> re_search ever_used (clean_label (Str ''RC-ADULT: COCAINE - EVER USED'')) \<and>
   clean_label (Str (clean_label (Str ''RC-ADULT: COCAINE - EVER USED''))) =
     clean_label (Str ''RC-ADULT: COCAINE - EVER USED'')"
proof -
  have v: "clean_label (Str ''RC-ADULT: COCAINE - EVER USED'') = ''COCAINE''"
    by code_simp
  have h1: "\<not> prefix ''RC-'' (clean_label (Str ''RC-ADULT: COCAINE - EVER USED''))"
    unfolding v by simp
  have h2: "\<not> prefix ''ADULT:'' (clean_label (Str ''RC-ADULT: COCAINE - EVER USED''))"
    unfolding v by simp
  have h3: "\<not> prefix ''YOUTH:'' (clean_label (Str ''RC-ADULT: COCAINE - EVER USED''))"
    unfolding v by simp
  have h4: "\<not> re_search ever_used (clean_label (Str ''RC-ADULT: COCAINE - EVER USED''))"
    unfolding v by code_simp
  show ?thesis
    using h1 h2 h3 h4 clean_label_idempotent_when_settled[OF h1 h2 h3 h4] by simp
qed

text \<open>
  Claim C3 as stated fails where stripping one prefix exposes another: the label
  \<open>ADULT: RC-COCAINE\<close> is cleaned to \<open>RC-COCAINE\<close> (the \<open>RC-\<close> rule runs before the
  \<open>ADULT:\<close> rule), and cleaning that again gives \<open>COCAINE\<close>.
\<close>

theorem clean_label_not_idempotent:
  "clean_label (Str (clean_label (Str ''ADULT: RC-COCAINE''))) \<noteq> clean_label (Str ''ADULT: RC-COCAINE'')"
  by code_simp

text \<open>
  Claim C8, as amended. \<open>clean_label\<close> applies its rules in this order: a missing
  label gives the empty string; otherwise uppercase and trim; strip a leading \<open>RC-\<close>
  (with the whitespace after it); strip a leading \<open>ADULT:\<close> or \<open>YOUTH:\<close> (with the
  whitespace after it); when the text contains \<open>LIFETIME\<close> or \<open>EVER\<close>, delete every
  \<open>(-) EVER USED\<close> phrase, wherever it stands; trim again. So
  \<open>RC-ADULT: COCAINE - EVER USED\<close> becomes \<open>COCAINE\<close>, and
  \<open>COCAINE - EVER USED IN LIFETIME\<close> becomes \<open>COCAINE IN LIFETIME\<close>.
\<close>

theorem clean_label_rules:
  "clean_label NaN = [] \<and> clean_label PyNone = [] \<and>
   clean_label (Str x) =
     strip (strip_ever_used (re_sub_del age_prefix (re_sub_del rc_prefix (strip (upper x))))) \<and>
   re_sub_del rc_prefix s = (if prefix ''RC-'' s then dropWhile is_space (drop 3 s) else s) \<and>
   re_sub_del age_prefix s =
     (if prefix ''ADULT:'' s \<or> prefix ''YOUTH:'' s then dropWhile is_space (drop 6 s) else s) \<and>
   strip_ever_used s =
     (if contains ''LIFETIME'' s \<or> contains ''EVER'' s then re_sub_del ever_used s else s) \<and>
   clean_label (Str ''RC-ADULT: COCAINE - EVER USED'') = ''COCAINE'' \<and>
   clean_label (Str ''COCAINE - EVER USED IN LIFETIME'') = ''COCAINE IN LIFETIME''"
proof -
  have 1: "clean_label (Str ''RC-ADULT: COCAINE - EVER USED'') = ''COCAINE''" by code_simp
  have 2: "clean_label (Str ''COCAINE - EVER USED IN LIFETIME'') = ''COCAINE IN LIFETIME''"
    by code_simp
  have 3: "clean_label NaN = []" "clean_label PyNone = []" by (simp_all add: clean_label_def)
  have 4: "clean_label (Str x) =
     strip (strip_ever_used (re_sub_del age_prefix (re_sub_del rc_prefix (strip (upper x)))))"
    by (simp add: clean_label_def)
  have 5: "strip_ever_used s =
     (if contains ''LIFETIME'' s \<or> contains ''EVER'' s then re_sub_del ever_used s else s)"
    by (rule strip_ever_used_def)
  show ?thesis
    using 1 2 3 4 5 re_sub_del_rc_prefix[of s] re_sub_del_age_prefix[of s] by (intro conjI)
qed

text \<open>
  Claim C8 as stated has the last rule strip a trailing phrase only. On the label
  \<open>COCAINE - EVER USED IN LIFETIME\<close> the phrase is not trailing: the rules as
  stated leave the label as it is, the code deletes the phrase.
\<close>

theorem clean_label_strips_inner_phrase:
  "clean_label (Str ''COCAINE - EVER USED IN LIFETIME'') = ''COCAINE IN LIFETIME'' \<and>
   clean_label_spec (Str ''COCAINE - EVER USED IN LIFETIME'') = ''COCAINE - EVER USED IN LIFETIME'' \<and>
   clean_label (Str ''COCAINE - EVER USED IN LIFETIME'') \<noteq>
     clean_label_spec (Str ''COCAINE - EVER USED IN LIFETIME'')"
  by code_simp

section \<open>Properties of the Feature Extractor\<close>

lemma map_add_upt': "map (\<lambda>e. n + e) [a ..< b] = [n + a ..< n + b]"
  by (induction b) auto

lemma at_boundary_append:
  assumes "0 < j"
  shows "at_boundary (p @ t) (length p + j) = at_boundary t j"
proof -
  obtain k where k: "j = Suc k" using assms by (cases j) auto
  have 1: "(p @ t) ! (length p + j - 1) = t ! (j - 1)"
    unfolding k by (simp add: nth_append)
  have 2: "(p @ t) ! (length p + j) = t ! j"
    by (rule nth_append_length_plus)
  show ?thesis
    unfolding at_boundary_def 1 2 using assms by simp
qed

lemma ends_append:
  "no_bol r \<Longrightarrow> 0 < j \<Longrightarrow> ends r (p @ t) (length p + j) = map (\<lambda>e. length p + e) (ends r t j)"
proof (induction r arbitrary: j)
  case (Lit w)
  then show ?case by simp
next
  case Spaces
  have "rev [length p + j ..< Suc (length p + j + length (takeWhile is_space (drop j t)))] =
      map (\<lambda>e. length p + e) (rev [j ..< Suc (j + length (takeWhile is_space (drop j t)))])"
    unfolding rev_map[symmetric] map_add_upt' by (simp only: add_Suc_right add.assoc)
  then show ?case by (simp only: ends.simps drop_append length_drop drop_all diff_add_inverse append_Nil order_refl le_add1 diff_is_0_eq drop_0)
next
  case (Opt r)
  then show ?case by simp
next
  case (Alt r1 r2)
  then show ?case by simp
next
  case (Seq r1 r2)
  have 1: "ends r1 (p @ t) (length p + j) = map (\<lambda>e. length p + e) (ends r1 t j)"
    using Seq by simp
  have 2: "\<And>m. m \<in> set (ends r1 t j) \<Longrightarrow>
      ends r2 (p @ t) (length p + m) = map (\<lambda>e. length p + e) (ends r2 t m)"
  proof -
    fix m assume "m \<in> set (ends r1 t j)"
    then have "j \<le> m" by (rule ends_ge)
    then have "0 < m" using Seq.prems(2) by simp
    then show "ends r2 (p @ t) (length p + m) = map (\<lambda>e. length p + e) (ends r2 t m)"
      using Seq by simp
  qed
  have "ends (Seq r1 r2) (p @ t) (length p + j) =
      concat (map (\<lambda>m. ends r2 (p @ t) (length p + m)) (ends r1 t j))"
    by (simp add: 1 comp_def)
  also have "\<dots> = concat (map (\<lambda>m. map (\<lambda>e. length p + e) (ends r2 t m)) (ends r1 t j))"
    using 2 by (simp cong: map_cong)
  also have "\<dots> = map (\<lambda>e. length p + e) (ends (Seq r1 r2) t j)"
    by (simp add: map_concat comp_def)
  finally show ?case .
next
  case Bol
  then show ?case by simp
next
  case Wordb
  then show ?case by (simp add: at_boundary_append)
qed

lemma re_search_iff: "re_search r s \<longleftrightarrow> (\<exists>i\<le>length s. ends r s i \<noteq> [])"
  unfolding re_search_def list_ex_iff by (auto simp del: upt_Suc simp add: less_Suc_eq_le)

lemma re_search_append:
  assumes "no_bol r" "0 < j" "j \<le> length t" "ends r t j \<noteq> []"
  shows "re_search r (p @ t)"
proof -
  have "ends r (p @ t) (length p + j) \<noteq> []"
    using ends_append[OF assms(1,2)] assms(4) by simp
  moreover have "length p + j \<le> length (p @ t)" using assms(3) by simp
  ultimately show ?thesis unfolding re_search_iff by blast
qed

lemma feature_text_Str: "feature_text n (Str l) = upper n @ upper ('' '' @ l)"
  by (simp add: feature_text_def upper_append)

lemma flag_label_indicator:
  "re_search indicator_tokens (feature_text n (Str ''AGE FIRST USE FLAG''))"
proof -
  have u: "upper ('' '' @ ''AGE FIRST USE FLAG'') = '' AGE FIRST USE FLAG''" by code_simp
  have "re_search indicator_tokens (upper n @ '' AGE FIRST USE FLAG'')"
  proof (rule re_search_append[where j = 15])
    show "no_bol indicator_tokens" by (simp add: indicator_tokens_def word_of_def)
    show "ends indicator_tokens '' AGE FIRST USE FLAG'' 15 \<noteq> []" by code_simp
  qed simp_all
  then show ?thesis by (simp only: feature_text_Str u)
qed

lemma flag_label_age:
  "re_search age_tokens (feature_text n (Str ''AGE FIRST USE FLAG''))"
proof -
  have u: "upper ('' '' @ ''AGE FIRST USE FLAG'') = '' AGE FIRST USE FLAG''" by code_simp
  have "re_search age_tokens (upper n @ '' AGE FIRST USE FLAG'')"
  proof (rule re_search_append[where j = 1])
    show "no_bol age_tokens" by (simp add: age_tokens_def word_of_def)
    show "ends age_tokens '' AGE FIRST USE FLAG'' 1 \<noteq> []" by code_simp
  qed simp_all
  then show ?thesis by (simp only: feature_text_Str u)
qed

lemma measure_type_extract:
  "measure_type (extract_semantic_features n l) = measure_of (feature_text n l)"
  by (simp add: extract_semantic_features_def Let_def)

text \<open>
  Claim C7. \<open>measure_type\<close> is decided by the first rule that matches, in the fixed
  order: a \<open>FLAG\<close>/\<open>INDICATOR\<close> token gives \<open>use_indicator\<close>; otherwise an
  \<open>AGE\<close>/\<open>FIRST\<close> token gives \<open>age_first_use\<close>; otherwise an \<open>ABUSE\<close>/\<open>DEPEND\<close> token
  gives \<open>abuse_dependence\<close>; otherwise the default \<open>use\<close> stays. For the label
  \<open>AGE FIRST USE FLAG\<close>, under any variable name, both the indicator rule and the
  age rule match, and the result is \<open>use_indicator\<close>.
\<close>

theorem measure_type_priority:
  "(re_search indicator_tokens (feature_text n l) \<longrightarrow>
      measure_type (extract_semantic_features n l) = ''use_indicator'') \<and>
   (\<not> re_search indicator_tokens (feature_text n l) \<and> re_search age_tokens (feature_text n l) \<longrightarrow>
      measure_type (extract_semantic_features n l) = ''age_first_use'') \<and>
   (\<not> re_search indicator_tokens (feature_text n l) \<and> \<not> re_search age_tokens (feature_text n l) \<and>
    re_search abuse_tokens (feature_text n l) \<longrightarrow>
      measure_type (extract_semantic_features n l) = ''abuse_dependence'') \<and>
   (\<not> re_search indicator_tokens (feature_text n l) \<and> \<not> re_search age_tokens (feature_text n l) \<and>
    \<not> re_search abuse_tokens (feature_text n l) \<longrightarrow>
      measure_type (extract_semantic_features n l) = ''use'') \<and>
   re_search indicator_tokens (feature_text n (Str ''AGE FIRST USE FLAG'')) \<and>
   re_search age_tokens (feature_text n (Str ''AGE FIRST USE FLAG'')) \<and>
   measure_type (extract_semantic_features n (Str ''AGE FIRST USE FLAG'')) = ''use_indicator''"
  using flag_label_indicator[of n] flag_label_age[of n]
  by (simp add: measure_type_extract measure_of_def)

text \<open>Each of the four cases of C7 occurs: one variable for each rule.\<close>

theorem measure_type_priority_witness:
  "re_search indicator_tokens (feature_text ''MRJAGE'' (Str ''AGE FIRST USE FLAG'')) \<and>
   measure_type (extract_semantic_features ''MRJAGE'' (Str ''AGE FIRST USE FLAG'')) = ''use_indicator'' \<and>
   \<not> re_search indicator_tokens (feature_text ''MJAGE'' (Str ''AGE WHEN FIRST USED MARIJUANA'')) \<and>
   re_search age_tokens (feature_text ''MJAGE'' (Str ''AGE WHEN FIRST USED MARIJUANA'')) \<and>
   measure_type (extract_semantic_features ''MJAGE'' (Str ''AGE WHEN FIRST USED MARIJUANA'')) = ''age_first_use'' \<and>
   \<not> re_search indicator_tokens (feature_text ''ABUSEALC'' (Str ''ALCOHOL ABUSE - PAST YEAR'')) \<and>
   \<not> re_search age_tokens (feature_text ''ABUSEALC'' (Str ''ALCOHOL ABUSE - PAST YEAR'')) \<and>
   re_search abuse_tokens (feature_text ''ABUSEALC'' (Str ''ALCOHOL ABUSE - PAST YEAR'')) \<and>
   measure_type (extract_semantic_features ''ABUSEALC'' (Str ''ALCOHOL ABUSE - PAST YEAR'')) = ''abuse_dependence'' \<and>
   \<not> re_search indicator_tokens (feature_text ''QUESTID'' (Str ''RESPONDENT ID'')) \<and>
   \<not> re_search age_tokens (feature_text ''QUESTID'' (Str ''RESPONDENT ID'')) \<and>
   \<not> re_search abuse_tokens (feature_text ''QUESTID'' (Str ''RESPONDENT ID'')) \<and>
   measure_type (extract_semantic_features ''QUESTID'' (Str ''RESPONDENT ID'')) = ''use''"
proof -
  have a1: "re_search indicator_tokens (feature_text ''MRJAGE'' (Str ''AGE FIRST USE FLAG''))"
    by code_simp
  have b1: "\<not> re_search indicator_tokens (feature_text ''MJAGE'' (Str ''AGE WHEN FIRST USED MARIJUANA''))"
    by code_simp
  have b2: "re_search age_tokens (feature_text ''MJAGE'' (Str ''AGE WHEN FIRST USED MARIJUANA''))"
    by code_simp
  have c1: "\<not> re_search indicator_tokens (feature_text ''ABUSEALC'' (Str ''ALCOHOL ABUSE - PAST YEAR''))"
    by code_simp
  have c2: "\<not> re_search age_tokens (feature_text ''ABUSEALC'' (Str ''ALCOHOL ABUSE - PAST YEAR''))"
    by code_simp
  have c3: "re_search abuse_tokens (feature_text ''ABUSEALC'' (Str ''ALCOHOL ABUSE - PAST YEAR''))"
    by code_simp
  have d1: "\<not> re_search indicator_tokens (feature_text ''QUESTID'' (Str ''RESPONDENT ID''))"
    by code_simp
  have d2: "\<not> re_search age_tokens (feature_text ''QUESTID'' (Str ''RESPONDENT ID''))"
    by code_simp
  have d3: "\<not> re_search abuse_tokens (feature_text ''QUESTID'' (Str ''RESPONDENT ID''))"
    by code_simp
  have r1: "measure_type (extract_semantic_features ''MRJAGE'' (Str ''AGE FIRST USE FLAG'')) = ''use_indicator''"
    using measure_type_priority[of "''MRJAGE''" "Str ''AGE FIRST USE FLAG''"] by simp
  have r2: "measure_type (extract_semantic_features ''MJAGE'' (Str ''AGE WHEN FIRST USED MARIJUANA'')) = ''age_first_use''"
    using measure_type_priority[of "''MJAGE''" "Str ''AGE WHEN FIRST USED MARIJUANA''"] b1 b2
    by simp
  have r3: "measure_type (extract_semantic_features ''ABUSEALC'' (Str ''ALCOHOL ABUSE - PAST YEAR'')) = ''abuse_dependence''"
    using measure_type_priority[of "''ABUSEALC''" "Str ''ALCOHOL ABUSE - PAST YEAR''"] c1 c2 c3
    by simp
  have r4: "measure_type (extract_semantic_features ''QUESTID'' (Str ''RESPONDENT ID'')) = ''use''"
    using measure_type_priority[of "''QUESTID''" "Str ''RESPONDENT ID''"] d1 d2 d3
    by simp
  show ?thesis
    using a1 b1 b2 c1 c2 c3 d1 d2 d3 r1 r2 r3 r4 by simp
qed

lemma first_match_default:
  "\<forall>p\<in>set ps. \<not> re_search (snd p) t \<Longrightarrow> first_match d ps t = d"
  by (induction d ps t rule: first_match.induct) auto

lemma first_match_range: "first_match d ps t \<in> set (d # map fst ps)"
  by (induction d ps t rule: first_match.induct) auto

text \<open>
  Claim C9. \<open>extract_semantic_features\<close> has no failing branch: for every variable
  name and label (a missing label included) it returns a substance from the
  pattern list or \<open>other\<close>, a time period from the pattern list or the empty string,
  and one of the four measure types. When no substance pattern matches the
  substance is \<open>other\<close>; when no time pattern matches the time period is empty. The
  variable \<open>QUESTID\<close> with label \<open>RESPONDENT ID\<close> gets \<open>other\<close>, the empty time period
  and \<open>use\<close>.
\<close>

theorem extract_semantic_features_total:
  "((\<forall>p\<in>set substance_patterns. \<not> re_search (snd p) (feature_text n l)) \<longrightarrow>
      substance (extract_semantic_features n l) = ''other'') \<and>
   ((\<forall>p\<in>set time_patterns. \<not> re_search (snd p) (feature_text n l)) \<longrightarrow>
      time_period (extract_semantic_features n l) = []) \<and>
   substance (extract_semantic_features n l) \<in> set (''other'' # map fst substance_patterns) \<and>
   time_period (extract_semantic_features n l) \<in> set ([] # map fst time_patterns) \<and>
   measure_type (extract_semantic_features n l) \<in>
     {''use'', ''use_indicator'', ''age_first_use'', ''abuse_dependence''} \<and>
   extract_semantic_features ''QUESTID'' (Str ''RESPONDENT ID'') =
     \<lparr>substance = ''other'', time_period = [], measure_type = ''use''\<rparr>"
proof -
  let ?t = "feature_text n l"
  have s: "substance (extract_semantic_features n l) = first_match ''other'' substance_patterns ?t"
    and p: "time_period (extract_semantic_features n l) = first_match [] time_patterns ?t"
    and m: "measure_type (extract_semantic_features n l) = measure_of ?t"
    by (simp_all add: extract_semantic_features_def Let_def)
  have 1: "(\<forall>p\<in>set substance_patterns. \<not> re_search (snd p) ?t) \<longrightarrow>
      substance (extract_semantic_features n l) = ''other''"
    unfolding s using first_match_default by blast
  have 2: "(\<forall>p\<in>set time_patterns. \<not> re_search (snd p) ?t) \<longrightarrow>
      time_period (extract_semantic_features n l) = []"
    unfolding p using first_match_default by blast
  have 3: "substance (extract_semantic_features n l) \<in> set (''other'' # map fst substance_patterns)"
    unfolding s by (rule first_match_range)
  have 4: "time_period (extract_semantic_features n l) \<in> set ([] # map fst time_patterns)"
    unfolding p by (rule first_match_range)
  have 5: "measure_type (extract_semantic_features n l) \<in>
     {''use'', ''use_indicator'', ''age_first_use'', ''abuse_dependence''}"
    unfolding m measure_of_def by simp
  have 6: "extract_semantic_features ''QUESTID'' (Str ''RESPONDENT ID'') =
     \<lparr>substance = ''other'', time_period = [], measure_type = ''use''\<rparr>"
    by code_simp
  show ?thesis using 1 2 3 4 5 6 by (intro conjI)
qed

text \<open>No substance pattern and no time pattern matches \<open>QUESTID RESPONDENT ID\<close>.\<close>

theorem extract_semantic_features_total_witness:
  "substance (extract_semantic_features ''QUESTID'' (Str ''RESPONDENT ID'')) = ''other'' \<and>
   time_period (extract_semantic_features ''QUESTID'' (Str ''RESPONDENT ID'')) = []"
proof -
  have 1: "\<forall>p\<in>set substance_patterns. \<not> re_search (snd p) (feature_text ''QUESTID'' (Str ''RESPONDENT ID''))"
    by code_simp
  have 2: "\<forall>p\<in>set time_patterns. \<not> re_search (snd p) (feature_text ''QUESTID'' (Str ''RESPONDENT ID''))"
    by code_simp
  show ?thesis
    using 1 2 extract_semantic_features_total[of "''QUESTID''" "Str ''RESPONDENT ID''"]
    by simp
qed

section \<open>Properties of the Equivalence Expander\<close>

lemma claim_keys_apply:
  "claim_keys c ks m k =
     (case m k of Some v \<Rightarrow> Some v | None \<Rightarrow> if k \<in> set ks then Some c else None)"
  by (induction ks arbitrary: m) (auto split: option.splits)

lemma claim_groups_apply:
  "claim_groups gs m k =
     (case m k of Some v \<Rightarrow> Some v
      | None \<Rightarrow> map_option fst (find (\<lambda>(c, ks). k \<in> set ks) gs))"
proof (induction gs arbitrary: m)
  case Nil
  then show ?case by (simp split: option.splits)
next
  case (Cons g gs)
  obtain c ks where g: "g = (c, ks)" by (cases g)
  show ?case
    unfolding g by (simp add: Cons.IH claim_keys_apply split: option.splits)
qed

lemma set_unique: "set (unique xs) = set xs"
  by (simp add: unique_def)

lemma find_map: "find P (map f xs) = map_option f (find (P \<circ> f) xs)"
  by (induction xs) auto

lemma find_groupby_unique:
  "map_option fst (find (\<lambda>(c, ks). k \<in> set ks) (groupby_unique ps)) =
     find (\<lambda>c. (c, k) \<in> set ps) (sort (remdups (map fst ps)))"
proof -
  have "(\<lambda>(c, ks). k \<in> set ks) \<circ> (\<lambda>c. (c, unique (map snd (filter (\<lambda>(c', k). c' = c) ps))))
      = (\<lambda>c. (c, k) \<in> set ps)"
    by (force simp: fun_eq_iff set_unique image_iff)
  then show ?thesis
    by (simp add: groupby_unique_def find_map option.map_comp comp_def option.map_ident)
qed

lemma find_sorted_least:
  assumes "sorted xs" "find P xs = Some x"
  shows "P x \<and> x \<in> set xs \<and> (\<forall>y\<in>set xs. P y \<longrightarrow> x \<le> y)"
proof -
  from assms(2) obtain i where i: "i < length xs" "P (xs ! i)" "x = xs ! i"
    "\<forall>j<i. \<not> P (xs ! j)" unfolding find_Some_iff by blast
  have "x \<le> y" if "y \<in> set xs" "P y" for y
  proof -
    from that obtain j where j: "j < length xs" "y = xs ! j" by (auto simp: in_set_conv_nth)
    with that i have "i \<le> j" by (meson not_le)
    then show ?thesis using assms(1) i j by (simp add: sorted_nth_mono)
  qed
  then show ?thesis using i by auto
qed

lemma key_to_confirmed_find:
  "key_to_confirmed df k =
     find (\<lambda>c. (c, k) \<in> set (confirmed_pairs df)) (sort (remdups (map fst (confirmed_pairs df))))"
  by (simp add: key_to_confirmed_def claim_groups_apply find_groupby_unique)

lemma key_to_confirmed_Some_iff:
  "key_to_confirmed df k = Some c \<longleftrightarrow>
     (c, k) \<in> set (confirmed_pairs df) \<and> (\<forall>c'. (c', k) \<in> set (confirmed_pairs df) \<longrightarrow> c \<le> c')"
proof
  let ?cs = "sort (remdups (map fst (confirmed_pairs df)))"
  assume "key_to_confirmed df k = Some c"
  then have f: "find (\<lambda>c. (c, k) \<in> set (confirmed_pairs df)) ?cs = Some c"
    by (simp add: key_to_confirmed_find)
  have "sorted ?cs" by simp
  from find_sorted_least[OF this f]
  have "(c, k) \<in> set (confirmed_pairs df)"
    and "\<forall>y\<in>set ?cs. (y, k) \<in> set (confirmed_pairs df) \<longrightarrow> c \<le> y" by auto
  moreover have "\<And>c'. (c', k) \<in> set (confirmed_pairs df) \<Longrightarrow> c' \<in> set ?cs" by force
  ultimately show "(c, k) \<in> set (confirmed_pairs df) \<and>
      (\<forall>c'. (c', k) \<in> set (confirmed_pairs df) \<longrightarrow> c \<le> c')" by blast
next
  let ?cs = "sort (remdups (map fst (confirmed_pairs df)))"
  assume h: "(c, k) \<in> set (confirmed_pairs df) \<and>
      (\<forall>c'. (c', k) \<in> set (confirmed_pairs df) \<longrightarrow> c \<le> c')"
  then have "c \<in> set ?cs" by force
  then have "find (\<lambda>c. (c, k) \<in> set (confirmed_pairs df)) ?cs \<noteq> None"
    using h by (auto simp: find_None_iff)
  then obtain a where a: "find (\<lambda>c. (c, k) \<in> set (confirmed_pairs df)) ?cs = Some a" by auto
  have "sorted ?cs" by simp
  from find_sorted_least[OF this a] \<open>c \<in> set ?cs\<close> h
  have "a \<le> c" "(a, k) \<in> set (confirmed_pairs df)" by auto
  with h have "a = c" by (meson order_antisym)
  then show "key_to_confirmed df k = Some c" using a by (simp add: key_to_confirmed_find)
qed

lemma key_to_confirmed_None_iff:
  "key_to_confirmed df k = None \<longleftrightarrow> (\<forall>c. (c, k) \<notin> set (confirmed_pairs df))"
  by (force simp: key_to_confirmed_find find_None_iff)

lemma set_confirmed_pairs:
  "set (confirmed_pairs df) = {(str_of c, k) | c k. (c, k) \<in> set df \<and> has_confirmed c}"
  by (auto simp: confirmed_pairs_def)

lemma key_to_confirmed_set:
  assumes "set df' = set df"
  shows "key_to_confirmed df' = key_to_confirmed df"
proof
  fix k
  have s: "set (confirmed_pairs df') = set (confirmed_pairs df)"
    using assms by (simp add: set_confirmed_pairs)
  show "key_to_confirmed df' k = key_to_confirmed df k"
  proof (cases "key_to_confirmed df k")
    case None
    then have "\<forall>c. (c, k) \<notin> set (confirmed_pairs df')"
      using s by (simp add: key_to_confirmed_None_iff)
    then have "key_to_confirmed df' k = None" by (simp add: key_to_confirmed_None_iff)
    then show ?thesis using None by simp
  next
    case (Some c)
    then have "key_to_confirmed df' k = Some c"
      using s by (simp add: key_to_confirmed_Some_iff)
    then show ?thesis using Some by simp
  qed
qed

lemma sorted_groupby_unique:
  "sorted (map fst (groupby_unique ps)) \<and> distinct (map fst (groupby_unique ps))"
  by (simp add: groupby_unique_def comp_def)

text \<open>
  Claim C10. The expander visits the confirmed groups in sorted order of their
  \<open>cross_year_confirmed\<close> id, so a key is claimed by the smallest id under which it
  is observed: \<open>key_to_confirmed\<close> maps \<open>k\<close> to \<open>c\<close> exactly when \<open>k\<close> is observed under
  \<open>c\<close> and under no smaller id. The mapping depends only on which rows there are,
  not on their order.
\<close>

theorem smallest_confirmed_id_claims_key:
  "sorted (map fst (groupby_unique (confirmed_pairs df))) \<and>
   (key_to_confirmed df k = Some c \<longleftrightarrow>
      (c, k) \<in> set (confirmed_pairs df) \<and>
      (\<forall>c'. (c', k) \<in> set (confirmed_pairs df) \<longrightarrow> c \<le> c')) \<and>
   (set df' = set df \<longrightarrow> key_to_confirmed df' = key_to_confirmed df)"
  using sorted_groupby_unique[of "confirmed_pairs df"] key_to_confirmed_Some_iff[of df k c]
    key_to_confirmed_set[of df' df]
  by blast

text \<open>A key observed under \<open>B_f_2\<close> first and \<open>A_f_1\<close> second, in row order, is
  claimed by \<open>A_f_1\<close>, and reordering the rows changes nothing.\<close>

theorem smallest_confirmed_id_claims_key_witness:
  "(''A_f_1'', ''K'') \<in> set (confirmed_pairs [(Str ''B_f_2'', ''K''), (Str ''A_f_1'', ''K''), (NaN, ''K'')]) \<and>
   key_to_confirmed [(Str ''B_f_2'', ''K''), (Str ''A_f_1'', ''K''), (NaN, ''K'')] ''K'' = Some ''A_f_1'' \<and>
   set [(Str ''A_f_1'', ''K''), (NaN, ''K''), (Str ''B_f_2'', ''K'')] =
     set [(Str ''B_f_2'', ''K''), (Str ''A_f_1'', ''K''), (NaN, ''K'')] \<and>
   key_to_confirmed [(Str ''A_f_1'', ''K''), (NaN, ''K''), (Str ''B_f_2'', ''K'')] =
     key_to_confirmed [(Str ''B_f_2'', ''K''), (Str ''A_f_1'', ''K''), (NaN, ''K'')]"
proof -
  let ?df = "[(Str ''B_f_2'', ''K''), (Str ''A_f_1'', ''K''), (NaN, ''K'')]"
  let ?df' = "[(Str ''A_f_1'', ''K''), (NaN, ''K''), (Str ''B_f_2'', ''K'')]"
  have cp: "confirmed_pairs ?df = [(''B_f_2'', ''K''), (''A_f_1'', ''K'')]"
    by (simp add: confirmed_pairs_def has_confirmed_def)
  have 1: "(''A_f_1'', ''K'') \<in> set (confirmed_pairs ?df)" unfolding cp by simp
  have 2: "\<forall>c'. (c', ''K'') \<in> set (confirmed_pairs ?df) \<longrightarrow> ''A_f_1'' \<le> c'"
    unfolding cp by simp
  have 3: "set ?df' = set ?df" by auto
  show ?thesis
    using 1 2 3 smallest_confirmed_id_claims_key[of ?df "''K''" "''A_f_1''" ?df']
    by simp
qed

lemma confirmed_pairs_Nil:
  "\<not> list_ex (\<lambda>(c, k). has_confirmed c) df \<Longrightarrow> confirmed_pairs df = []"
  by (auto simp: confirmed_pairs_def list_ex_iff filter_empty_conv)

lemma expand_keys_with_confirmed_map:
  "expand_keys_with_confirmed df =
     map (\<lambda>(c, k). case key_to_confirmed df k of None \<Rightarrow> k | Some c' \<Rightarrow> c') df"
proof (cases "list_ex (\<lambda>(c, k). has_confirmed c) df")
  case True
  then show ?thesis by (simp add: expand_keys_with_confirmed_def)
next
  case False
  then have "\<And>k. key_to_confirmed df k = None"
    by (simp add: key_to_confirmed_None_iff confirmed_pairs_Nil)
  then show ?thesis using False
    by (simp add: expand_keys_with_confirmed_def case_prod_unfold)
qed

lemma zip_expand:
  "zip (map fst df) (expand_keys_with_confirmed df) =
     map (\<lambda>(c, k). (c, case key_to_confirmed df k of None \<Rightarrow> k | Some c' \<Rightarrow> c')) df"
proof -
  have "\<And>f :: string \<Rightarrow> string. zip (map fst df) (map (\<lambda>(c, k). f k) df) = map (\<lambda>(c, k). (c, f k)) df"
    by (induction df) auto
  then show ?thesis unfolding expand_keys_with_confirmed_map .
qed

lemma expand_fixed:
  fixes df :: "(cell \<times> string) list"
  defines "g \<equiv> (\<lambda>k. case key_to_confirmed df k of None \<Rightarrow> k | Some c' \<Rightarrow> c')"
  defines "df2 \<equiv> map (\<lambda>(c, k). (c, g k)) df"
  shows "(case key_to_confirmed df2 (g k) of None \<Rightarrow> g k | Some c' \<Rightarrow> c') = g k"
proof (cases "key_to_confirmed df2 (g k)")
  case None
  then show ?thesis by simp
next
  case (Some c')
  have cp2: "set (confirmed_pairs df2) = (\<lambda>(c, k). (c, g k)) ` set (confirmed_pairs df)"
    unfolding set_confirmed_pairs df2_def by force
  from Some have in2: "(c', g k) \<in> set (confirmed_pairs df2)"
    and min2: "\<And>c''. (c'', g k) \<in> set (confirmed_pairs df2) \<Longrightarrow> c' \<le> c''"
    unfolding key_to_confirmed_Some_iff by auto
  from in2 obtain k0 where k0: "(c', k0) \<in> set (confirmed_pairs df)" "g k0 = g k"
    unfolding cp2 by auto
  then have "key_to_confirmed df k0 \<noteq> None" by (auto simp: key_to_confirmed_None_iff)
  then obtain a where a: "key_to_confirmed df k0 = Some a" by auto
  then have a_in: "(a, k0) \<in> set (confirmed_pairs df)" and a_le: "a \<le> c'"
    using k0(1) unfolding key_to_confirmed_Some_iff by auto
  have gk0: "g k0 = a" using a by (simp add: g_def)
  have "(a, g k0) \<in> set (confirmed_pairs df2)" unfolding cp2 using a_in by force
  then have "c' \<le> a" using min2 k0(2) by simp
  then have "c' = a" using a_le by simp
  then show ?thesis using Some gk0 k0(2) by simp
qed

text \<open>
  Claim C5. Running the expander again on its own output, that is, on the same
  \<open>cross_year_confirmed\<close> column and the expanded key column, changes no key.
\<close>

theorem expand_keys_with_confirmed_idempotent:
  "expand_keys_with_confirmed (zip (map fst df) (expand_keys_with_confirmed df)) =
     expand_keys_with_confirmed df"
proof -
  let ?g = "\<lambda>k. case key_to_confirmed df k of None \<Rightarrow> k | Some c' \<Rightarrow> c'"
  let ?df2 = "map (\<lambda>(c, k). (c, ?g k)) df"
  have "expand_keys_with_confirmed ?df2 =
      map (\<lambda>(c, k). case key_to_confirmed ?df2 (?g k) of None \<Rightarrow> ?g k | Some c' \<Rightarrow> c') df"
    by (subst expand_keys_with_confirmed_map)
      (simp add: comp_def case_prod_unfold cong: option.case_cong)
  also have "\<dots> = map (\<lambda>(c, k). ?g k) df"
    using expand_fixed[where df = df] by simp
  also have "\<dots> = expand_keys_with_confirmed df"
    by (simp add: expand_keys_with_confirmed_map)
  finally show ?thesis by (simp only: zip_expand)
qed

section \<open>Properties of the Bridge Assigner\<close>

lemma find_sorted_key_least:
  assumes "sorted (map f xs)" "find P xs = Some t"
  shows "P t \<and> t \<in> set xs \<and> (\<forall>u\<in>set xs. P u \<longrightarrow> f t \<le> f u)"
proof -
  from assms(2) obtain i where i: "i < length xs" "P (xs ! i)" "t = xs ! i"
    "\<forall>j<i. \<not> P (xs ! j)" unfolding find_Some_iff by blast
  have "f t \<le> f u" if "u \<in> set xs" "P u" for u
  proof -
    from that(1) obtain j where j: "j < length xs" "u = xs ! j"
      unfolding in_set_conv_nth by blast
    have "i \<le> j" using that(2) i(4) j(2) by (meson not_le)
    moreover have "j < length (map f xs)" using j(1) by simp
    ultimately have "map f xs ! i \<le> map f xs ! j"
      using assms(1) by (rule sorted_nth_mono[rotated])
    then show ?thesis using i(1,3) j by simp
  qed
  then show ?thesis using i by auto
qed

lemma narrow_group_info_Some_iff:
  "narrow_group_info df k = Some yv \<longleftrightarrow>
     (k, yv) \<in> set df \<and> (\<forall>yv'. (k, yv') \<in> set df \<longrightarrow> yv \<le> yv')"
proof
  let ?f = "find (\<lambda>(k', yv). k' = k) (sort_key snd df)"
  have srt: "sorted (map snd (sort_key snd df))" by (rule sorted_sort_key)
  assume "narrow_group_info df k = Some yv"
  then obtain t where f: "?f = Some t" and t: "snd t = yv"
    by (auto simp: narrow_group_info_def)
  from find_sorted_key_least[OF srt f]
  have 1: "fst t = k" and 2: "t \<in> set df" and 3: "\<forall>u\<in>set df. fst u = k \<longrightarrow> snd t \<le> snd u"
    by (auto simp: case_prod_unfold)
  have "t = (k, yv)" using 1 t by (cases t) simp
  then have "(k, yv) \<in> set df" using 2 by simp
  moreover have "yv \<le> yv'" if "(k, yv') \<in> set df" for yv'
    using 3[rule_format, OF that] t by simp
  ultimately show "(k, yv) \<in> set df \<and> (\<forall>yv'. (k, yv') \<in> set df \<longrightarrow> yv \<le> yv')" by blast
next
  let ?f = "find (\<lambda>(k', yv). k' = k) (sort_key snd df)"
  have srt: "sorted (map snd (sort_key snd df))" by (rule sorted_sort_key)
  assume h: "(k, yv) \<in> set df \<and> (\<forall>yv'. (k, yv') \<in> set df \<longrightarrow> yv \<le> yv')"
  then have "(k, yv) \<in> set (sort_key snd df)" by simp
  then have "\<exists>x\<in>set (sort_key snd df). (\<lambda>(k', yv). k' = k) x" by (rule bexI[rotated]) simp
  then have "?f \<noteq> None" unfolding find_None_iff by blast
  then obtain t where f: "?f = Some t" by auto
  from find_sorted_key_least[OF srt f]
  have 1: "fst t = k" and 2: "t \<in> set df" and 3: "\<forall>u\<in>set df. fst u = k \<longrightarrow> snd t \<le> snd u"
    by (auto simp: case_prod_unfold)
  have "(k, yv) \<in> set df" using h by simp
  from 3[rule_format, OF this] have "snd t \<le> yv" by simp
  moreover have "t = (k, snd t)" using 1 by (cases t) simp
  then have "(k, snd t) \<in> set df" using 2 by simp
  then have "yv \<le> snd t" using h by blast
  ultimately have "snd t = yv" by simp
  then show "narrow_group_info df k = Some yv" using f by (simp add: narrow_group_info_def)
qed

lemma narrow_group_info_None_iff:
  "narrow_group_info df k = None \<longleftrightarrow> k \<notin> fst ` set df"
  by (force simp: narrow_group_info_def find_None_iff)

lemma narrow_group_info_set:
  assumes "set df' = set df"
  shows "narrow_group_info df' = narrow_group_info df"
proof
  fix k
  show "narrow_group_info df' k = narrow_group_info df k"
  proof (cases "narrow_group_info df k")
    case None
    then have "k \<notin> fst ` set df'"
      unfolding narrow_group_info_None_iff assms .
    then have "narrow_group_info df' k = None"
      unfolding narrow_group_info_None_iff .
    then show ?thesis using None by simp
  next
    case (Some yv)
    then have "(k, yv) \<in> set df' \<and> (\<forall>yv'. (k, yv') \<in> set df' \<longrightarrow> yv \<le> yv')"
      unfolding narrow_group_info_Some_iff assms .
    then have "narrow_group_info df' k = Some yv"
      unfolding narrow_group_info_Some_iff .
    then show ?thesis using Some by simp
  qed
qed

lemma bridge_id_set:
  assumes "set df' = set df"
  shows "bridge_id df' = bridge_id df"
proof
  fix k
  show "bridge_id df' k = bridge_id df k"
    unfolding bridge_id_def narrow_group_info_set[OF assms] ..
qed

lemma collect_Inr: "collect (map (\<lambda>x. Inr (f x)) xs) = Inr (map f xs)"
  by (induction xs) auto

lemma assign_bridges_eq:
  "assign_bridges df = Inr (map (\<lambda>(k, yv). bridge_id df k) df)"
proof -
  have "map (\<lambda>(k, yv). case narrow_group_info df k of
                                 None \<Rightarrow> Inl KeyError
                               | Some (y, v) \<Rightarrow> Inr (narrow_id v y)) df =
        map (\<lambda>x. Inr ((\<lambda>(k, yv). bridge_id df k) x)) df"
  proof (rule map_cong[OF refl])
    fix x assume x: "x \<in> set df"
    obtain k yv where kv: "x = (k, yv)" by (cases x)
    have "fst x \<in> fst ` set df" using x by (rule imageI)
    then have "narrow_group_info df k \<noteq> None"
      unfolding kv by (simp add: narrow_group_info_None_iff)
    then show "(case x of (k, yv) \<Rightarrow> case narrow_group_info df k of
                                 None \<Rightarrow> Inl KeyError
                               | Some (y, v) \<Rightarrow> Inr (narrow_id v y)) =
        Inr ((\<lambda>(k, yv). bridge_id df k) x)"
      unfolding kv by (auto simp: bridge_id_def)
  qed
  then show ?thesis unfolding assign_bridges_def by (simp only: collect_Inr)
qed

section \<open>Properties of the bridge computation\<close>

lemma zip_map_same: "zip (map f xs) (map g xs) = map (\<lambda>x. (f x, g x)) xs"
  by (induction xs) auto

lemma map2_map_same: "map2 f xs (map g xs) = map (\<lambda>x. f x (g x)) xs"
  by (induction xs) auto

lemma expanded_keys_eq: "expanded_keys df = map (expanded_key df) df"
  unfolding expanded_keys_def expand_keys_with_confirmed_map
  by (simp add: comp_def expanded_key_def)

lemma compute_semantic_bridges_eq:
  "compute_semantic_bridges df = Inr (map (\<lambda>r. bridged r (bridge_of df r)) df)"
proof -
  let ?T = "map (\<lambda>r. (expanded_key df r, year r, variable_name r)) df"
  have z: "zip (expanded_keys df) (map (\<lambda>r. (year r, variable_name r)) df) = ?T"
    unfolding expanded_keys_eq by (rule zip_map_same)
  have a: "assign_bridges ?T = Inr (map (bridge_of df) df)"
    unfolding assign_bridges_eq by (simp add: comp_def bridge_of_def)
  show ?thesis
    unfolding compute_semantic_bridges_def z a by (simp add: map2_map_same)
qed

lemma expanded_key_set:
  assumes "set df' = set df"
  shows "expanded_key df' = expanded_key df"
proof
  fix r
  have "set (map (\<lambda>r. (cross_year_confirmed r, narrow_key_of r)) df') =
      set (map (\<lambda>r. (cross_year_confirmed r, narrow_key_of r)) df)"
    using assms by simp
  then have "key_to_confirmed (map (\<lambda>r. (cross_year_confirmed r, narrow_key_of r)) df') =
      key_to_confirmed (map (\<lambda>r. (cross_year_confirmed r, narrow_key_of r)) df)"
    by (rule key_to_confirmed_set)
  then show "expanded_key df' r = expanded_key df r"
    unfolding expanded_key_def by simp
qed

lemma bridge_of_set:
  assumes "set df' = set df"
  shows "bridge_of df' = bridge_of df"
proof
  fix r
  have e: "expanded_key df' = expanded_key df" using assms by (rule expanded_key_set)
  have "set (map (\<lambda>r. (expanded_key df r, year r, variable_name r)) df') =
      set (map (\<lambda>r. (expanded_key df r, year r, variable_name r)) df)"
    using assms by simp
  then have "bridge_id (map (\<lambda>r. (expanded_key df r, year r, variable_name r)) df') =
      bridge_id (map (\<lambda>r. (expanded_key df r, year r, variable_name r)) df)"
    by (rule bridge_id_set)
  then show "bridge_of df' r = bridge_of df r"
    unfolding bridge_of_def e by simp
qed

lemma cross_year_narrow_bridged: "cross_year_narrow (bridged r b) = b"
  by (simp add: bridged_def meta_row.defs out_row.defs)

lemma bridged_sel:
  "year (bridged r b) = year r" "variable_name (bridged r b) = variable_name r"
  "cross_year_confirmed (bridged r b) = cross_year_confirmed r"
  by (simp_all add: bridged_def meta_row.defs out_row.defs)

lemma bridge_of_member:
  assumes "r \<in> set df"
  shows "\<exists>m\<in>set df. expanded_key df m = expanded_key df r \<and>
     bridge_of df r = narrow_id (variable_name m) (year m) \<and>
     (\<forall>n\<in>set df. expanded_key df n = expanded_key df r \<longrightarrow>
        (year m, variable_name m) \<le> (year n, variable_name n))"
proof -
  let ?tr = "\<lambda>r. (expanded_key df r, year r, variable_name r)"
  let ?T = "map ?tr df"
  let ?k = "expanded_key df r"
  have "fst (?tr r) \<in> fst ` set ?T" using assms by (intro imageI) simp
  then have "narrow_group_info ?T ?k \<noteq> None"
    by (simp add: narrow_group_info_None_iff)
  then obtain yv where yv: "narrow_group_info ?T ?k = Some yv" by auto
  then have mem: "(?k, yv) \<in> set ?T" and least: "\<And>yv'. (?k, yv') \<in> set ?T \<Longrightarrow> yv \<le> yv'"
    unfolding narrow_group_info_Some_iff by auto
  from mem obtain m where m: "m \<in> set df" "?tr m = (?k, yv)" by auto
  have b: "bridge_of df r = narrow_id (variable_name m) (year m)"
    using yv m(2) by (auto simp: bridge_of_def bridge_id_def)
  have "(year m, variable_name m) \<le> (year n, variable_name n)"
    if "n \<in> set df" "expanded_key df n = ?k" for n
  proof -
    have "?tr n \<in> set ?T" using that(1) by simp
    then have "(?k, year n, variable_name n) \<in> set ?T" using that(2) by simp
    from least[OF this] show ?thesis using m(2) by simp
  qed
  then show ?thesis using m b by auto
qed

text \<open>
  Claim C4. In the table returned by \<open>compute_semantic_bridges\<close>, the
  \<open>cross_year_narrow\<close> of a row is \<open>{variable_name}_narrow_{year}\<close> of a member of its
  group (the rows with the same expanded key) that has the smallest year and, among
  those, the lexicographically smallest variable name. When the input rows are
  permuted, every row receives the same output row as before.
\<close>

theorem bridge_is_earliest_member_of_group:
  assumes "i < length df" and "mset df' = mset df" and "j < length df'" and "df' ! j = df ! i"
  shows "\<exists>outs outs' m.
     compute_semantic_bridges df = Inr outs \<and> length outs = length df \<and>
     m < length df \<and> expanded_keys df ! m = expanded_keys df ! i \<and>
     cross_year_narrow (outs ! i) =
       variable_name (df ! m) @ ''_narrow_'' @ str_int (year (df ! m)) \<and>
     (\<forall>n<length df. expanded_keys df ! n = expanded_keys df ! i \<longrightarrow>
        year (df ! m) < year (df ! n) \<or>
        (year (df ! m) = year (df ! n) \<and> variable_name (df ! m) \<le> variable_name (df ! n))) \<and>
     compute_semantic_bridges df' = Inr outs' \<and> length outs' = length df' \<and>
     outs' ! j = outs ! i"
proof -
  let ?outs = "map (\<lambda>r. bridged r (bridge_of df r)) df"
  let ?outs' = "map (\<lambda>r. bridged r (bridge_of df' r)) df'"
  have st: "set df' = set df" using assms(2) by (rule mset_eq_setD)
  have r: "df ! i \<in> set df" using assms(1) by simp
  from bridge_of_member[OF r] obtain x where x: "x \<in> set df"
    "expanded_key df x = expanded_key df (df ! i)"
    "bridge_of df (df ! i) = narrow_id (variable_name x) (year x)"
    "\<And>n. n \<in> set df \<Longrightarrow> expanded_key df n = expanded_key df (df ! i) \<Longrightarrow>
        (year x, variable_name x) \<le> (year n, variable_name n)"
    by blast
  from x(1) obtain m where m: "m < length df" "df ! m = x"
    unfolding in_set_conv_nth by blast
  have 1: "compute_semantic_bridges df = Inr ?outs" by (rule compute_semantic_bridges_eq)
  have 2: "compute_semantic_bridges df' = Inr ?outs'" by (rule compute_semantic_bridges_eq)
  have 3: "expanded_keys df ! m = expanded_keys df ! i"
    using m assms(1) x(2) by (simp add: expanded_keys_eq)
  have 4: "cross_year_narrow (?outs ! i) =
      variable_name (df ! m) @ ''_narrow_'' @ str_int (year (df ! m))"
    using assms(1) m(2) x(3) by (simp add: cross_year_narrow_bridged narrow_id_def)
  have 5: "\<forall>n<length df. expanded_keys df ! n = expanded_keys df ! i \<longrightarrow>
        year (df ! m) < year (df ! n) \<or>
        (year (df ! m) = year (df ! n) \<and> variable_name (df ! m) \<le> variable_name (df ! n))"
  proof (intro allI impI)
    fix n assume n: "n < length df" "expanded_keys df ! n = expanded_keys df ! i"
    then have "expanded_key df (df ! n) = expanded_key df (df ! i)"
      using assms(1) by (simp add: expanded_keys_eq)
    moreover have "df ! n \<in> set df" using n(1) by simp
    ultimately have "(year x, variable_name x) \<le> (year (df ! n), variable_name (df ! n))"
      using x(4) by blast
    then show "year (df ! m) < year (df ! n) \<or>
        (year (df ! m) = year (df ! n) \<and> variable_name (df ! m) \<le> variable_name (df ! n))"
      unfolding m(2) by auto
  qed
  have 6: "?outs' ! j = ?outs ! i"
    using assms(1,3,4) bridge_of_set[OF st] by simp
  show ?thesis
    using 1 2 3 4 5 6 m(1) by (intro exI[of _ ?outs] exI[of _ ?outs'] exI[of _ m]) simp
qed

lemma expanded_key_least:
  assumes r: "r \<in> set df" and c: "cross_year_confirmed r = Str c" "c \<noteq> []"
    and least: "\<And>r'. r' \<in> set df \<Longrightarrow> has_confirmed (cross_year_confirmed r') \<Longrightarrow>
         narrow_key_of r' = narrow_key_of r \<Longrightarrow> c \<le> str_of (cross_year_confirmed r')"
  shows "expanded_key df r = c"
proof -
  let ?P = "map (\<lambda>r. (cross_year_confirmed r, narrow_key_of r)) df"
  have hc: "has_confirmed (Str c)" using c(2) by (simp add: has_confirmed_def)
  have "(cross_year_confirmed r, narrow_key_of r) \<in> set ?P" using r by simp
  then have "(Str c, narrow_key_of r) \<in> set ?P" unfolding c(1) .
  then have 1: "(c, narrow_key_of r) \<in> set (confirmed_pairs ?P)"
    using hc unfolding set_confirmed_pairs
    by (intro CollectI exI[of _ "Str c"] exI[of _ "narrow_key_of r"]) simp
  have 2: "c \<le> c'" if "(c', narrow_key_of r) \<in> set (confirmed_pairs ?P)" for c'
  proof -
    from that obtain r' where "r' \<in> set df" "has_confirmed (cross_year_confirmed r')"
      "c' = str_of (cross_year_confirmed r')" "narrow_key_of r' = narrow_key_of r"
      unfolding set_confirmed_pairs by auto
    then show ?thesis using least by blast
  qed
  have "key_to_confirmed ?P (narrow_key_of r) = Some c"
    unfolding key_to_confirmed_Some_iff using 1 2 by blast
  then show ?thesis by (simp add: expanded_key_def)
qed

text \<open>
  Claim C2, as amended. Two rows that share a non-empty \<open>cross_year_confirmed\<close>
  value \<open>c\<close> get the same \<open>cross_year_narrow\<close> provided that neither of their narrow
  keys is also observed under a smaller confirmed id (one that is processed, and
  claims the key, earlier): then both keys are expanded to \<open>c\<close>.
\<close>

theorem same_confirmed_least_id_same_bridge:
  assumes "i < length df" and "j < length df"
    and "cross_year_confirmed (df ! i) = Str c" and "cross_year_confirmed (df ! j) = Str c"
    and "c \<noteq> []"
    and "\<forall>r\<in>set df. has_confirmed (cross_year_confirmed r) \<and>
           (narrow_key_of r = narrow_key_of (df ! i) \<or> narrow_key_of r = narrow_key_of (df ! j))
           \<longrightarrow> c \<le> str_of (cross_year_confirmed r)"
  shows "\<exists>outs. compute_semantic_bridges df = Inr outs \<and> length outs = length df \<and>
     expanded_keys df ! i = c \<and> expanded_keys df ! j = c \<and>
     cross_year_narrow (outs ! i) = cross_year_narrow (outs ! j)"
proof -
  have ri: "df ! i \<in> set df" and rj: "df ! j \<in> set df" using assms(1,2) by simp_all
  have ki: "expanded_key df (df ! i) = c"
    by (rule expanded_key_least[OF ri assms(3,5)]) (use assms(6) in blast)
  have kj: "expanded_key df (df ! j) = c"
    by (rule expanded_key_least[OF rj assms(4,5)]) (use assms(6) in blast)
  have b: "bridge_of df (df ! i) = bridge_of df (df ! j)"
    unfolding bridge_of_def ki kj ..
  show ?thesis
    using assms(1,2) ki kj b
    by (simp add: compute_semantic_bridges_eq expanded_keys_eq cross_year_narrow_bridged)
qed

text \<open>The rows of 2015 and 2016 alone satisfy the hypotheses of the amended C2.\<close>

theorem same_confirmed_least_id_same_bridge_witness:
  "(0::nat) < length (tl conflict_rows) \<and> (1::nat) < length (tl conflict_rows) \<and>
   cross_year_confirmed (tl conflict_rows ! 0) = Str ''MRJFLAG_f.xlsx_2'' \<and>
   cross_year_confirmed (tl conflict_rows ! 1) = Str ''MRJFLAG_f.xlsx_2'' \<and>
   ''MRJFLAG_f.xlsx_2'' \<noteq> [] \<and>
   (\<exists>outs. compute_semantic_bridges (tl conflict_rows) = Inr outs \<and>
      length outs = length (tl conflict_rows) \<and>
      expanded_keys (tl conflict_rows) ! 0 = ''MRJFLAG_f.xlsx_2'' \<and>
      expanded_keys (tl conflict_rows) ! 1 = ''MRJFLAG_f.xlsx_2'' \<and>
      cross_year_narrow (outs ! 0) = cross_year_narrow (outs ! 1))"
proof -
  have h1: "(0::nat) < length (tl conflict_rows)" by (simp add: conflict_rows_def)
  have h2: "(1::nat) < length (tl conflict_rows)" by (simp add: conflict_rows_def)
  have h3: "cross_year_confirmed (tl conflict_rows ! 0) = Str ''MRJFLAG_f.xlsx_2''"
    by (simp add: conflict_rows_def)
  have h4: "cross_year_confirmed (tl conflict_rows ! 1) = Str ''MRJFLAG_f.xlsx_2''"
    by (simp add: conflict_rows_def)
  have h5: "''MRJFLAG_f.xlsx_2'' \<noteq> []" by simp
  have h6: "\<forall>r\<in>set (tl conflict_rows). has_confirmed (cross_year_confirmed r) \<and>
       (narrow_key_of r = narrow_key_of (tl conflict_rows ! 0) \<or>
        narrow_key_of r = narrow_key_of (tl conflict_rows ! 1))
       \<longrightarrow> ''MRJFLAG_f.xlsx_2'' \<le> str_of (cross_year_confirmed r)"
    by (simp add: conflict_rows_def)
  show ?thesis
    by (rule conjI[OF h1 conjI[OF h2 conjI[OF h3 conjI[OF h4 conjI[OF h5
          same_confirmed_least_id_same_bridge[OF h1 h2 h3 h4 h5 h6]]]]]])
qed

text \<open>
  Claim C2 as stated fails on the example table: the rows of 2015 and 2016 share
  the confirmed id \<open>MRJFLAG_f.xlsx_2\<close>, but the narrow key of the 2015 row is also
  observed under \<open>MRJFLAG_f.xlsx_1\<close>, which claims it first; the 2015 row joins the
  group of 2002 and the 2016 row stays alone.
\<close>

theorem same_confirmed_different_bridge:
  "map cross_year_confirmed conflict_rows =
     [Str ''MRJFLAG_f.xlsx_1'', Str ''MRJFLAG_f.xlsx_2'', Str ''MRJFLAG_f.xlsx_2''] \<and>
   map_sum id (map cross_year_narrow) (compute_semantic_bridges conflict_rows) =
     Inr [''MRJFLAG_narrow_2002'', ''MRJFLAG_narrow_2002'', ''MRJFLAG_narrow_2016'']"
  by code_simp

text \<open>The example table and its reversal: the row of 2015 gets the same output row
  in both.\<close>

theorem bridge_is_earliest_member_of_group_witness:
  "(1::nat) < length conflict_rows \<and> mset (rev conflict_rows) = mset conflict_rows \<and>
   (1::nat) < length (rev conflict_rows) \<and> rev conflict_rows ! 1 = conflict_rows ! 1 \<and>
   (\<exists>outs outs'.
     compute_semantic_bridges conflict_rows = Inr outs \<and> length outs = length conflict_rows \<and>
     compute_semantic_bridges (rev conflict_rows) = Inr outs' \<and>
     length outs' = length (rev conflict_rows) \<and>
     outs' ! 1 = outs ! 1)"
proof -
  have h1: "(1::nat) < length conflict_rows" by (simp add: conflict_rows_def)
  have h2: "mset (rev conflict_rows) = mset conflict_rows" by simp
  have h3: "(1::nat) < length (rev conflict_rows)" by (simp add: conflict_rows_def)
  have h4: "rev conflict_rows ! 1 = conflict_rows ! 1" by (simp add: conflict_rows_def)
  from bridge_is_earliest_member_of_group[OF h1 h2 h3 h4]
  obtain outs outs' where
    "compute_semantic_bridges conflict_rows = Inr outs \<and> length outs = length conflict_rows \<and>
     compute_semantic_bridges (rev conflict_rows) = Inr outs' \<and>
     length outs' = length (rev conflict_rows) \<and>
     outs' ! 1 = outs ! 1"
    by blast
  then have "\<exists>outs outs'.
     compute_semantic_bridges conflict_rows = Inr outs \<and> length outs = length conflict_rows \<and>
     compute_semantic_bridges (rev conflict_rows) = Inr outs' \<and>
     length outs' = length (rev conflict_rows) \<and>
     outs' ! 1 = outs ! 1"
    by blast
  then show ?thesis
    by (rule conjI[OF h1 conjI[OF h2 conjI[OF h3 conjI[OF h4]]]])
qed

section \<open>Properties of the Metadata Merger\<close>

lemma with_concordance_sel:
  "year (with_concordance d r g f) = year r"
  "variable_name (with_concordance d r g f) = variable_name r"
  "variable_label (with_concordance d r g f) = variable_label r"
  "confirmed_group (with_concordance d r g f) = g"
  "concordance_file (with_concordance d r g f) = f"
  by (simp_all add: with_concordance_def base_row.defs meta_row.defs)

lemma add_cross_year_confirmed_sel:
  "year (add_cross_year_confirmed r) = year r"
  "variable_name (add_cross_year_confirmed r) = variable_name r"
  "variable_label (add_cross_year_confirmed r) = variable_label r"
  "confirmed_group (add_cross_year_confirmed r) = confirmed_group r"
  "concordance_file (add_cross_year_confirmed r) = concordance_file r"
  by (simp_all add: add_cross_year_confirmed_def)

lemma cross_year_confirmed_add:
  "cross_year_confirmed (add_cross_year_confirmed r) =
     (if has_concordance r
      then Str (variable_name r @ ''_'' @ str_of (concordance_file r) @ ''_'' @
                str_of (confirmed_group r))
      else Str '''')"
  by (simp add: add_cross_year_confirmed_def)

lemma keys_merge_left:
  "map (\<lambda>r. (year r, variable_name r)) (merge_left d base conc) =
     concat (map (\<lambda>r. replicate (max 1 (length (matches conc r))) (year r, variable_name r)) base)"
proof -
  have "map (\<lambda>r. (year r, variable_name r))
          (case matches conc r of
             [] \<Rightarrow> [with_concordance d r NaN NaN]
           | ms \<Rightarrow> map (\<lambda>c. with_concordance d r
                            (Str (conc_confirmed_group c)) (Str (conc_concordance_file c))) ms) =
        replicate (max 1 (length (matches conc r))) (year r, variable_name r)" for r
    by (cases "matches conc r")
      (simp_all add: with_concordance_sel comp_def map_replicate_const)
  then show ?thesis
    by (simp add: merge_left_def map_concat comp_def)
qed

lemma matches_Nil: "matches [] r = []"
  by (simp add: matches_def)

text \<open>
  Claim C6, as amended. When the base metadata is not empty the run produces a
  table in which every base record appears, in the base order, once per
  concordance entry that matches its \<open>(year, variable_name)\<close>, and once when no
  entry matches. So the table has exactly one row for each base pair whenever the
  concordance contributes at most one entry per pair; no pair is dropped, and no
  stage after the join adds or removes a row.
\<close>

theorem output_rows_follow_left_join:
  assumes "df_stata \<noteq> []"
  shows "\<exists>outs. build_variable_metadata df_stata ddi_data df_concordance = Inr outs \<and>
     map (\<lambda>r. (year r, variable_name r)) outs =
       concat (map (\<lambda>r. replicate (max 1 (length (matches df_concordance r)))
                            (year r, variable_name r)) df_stata) \<and>
     ((\<forall>r\<in>set df_stata. length (matches df_concordance r) \<le> 1) \<longrightarrow>
        map (\<lambda>r. (year r, variable_name r)) outs = map (\<lambda>r. (year r, variable_name r)) df_stata)"
proof -
  let ?key = "\<lambda>r. (year r, variable_name r)"
  let ?M = "if df_concordance \<noteq> [] then merge_left ddi_data df_stata df_concordance
              else map (\<lambda>r. with_concordance ddi_data r (Str '''') (Str '''')) df_stata"
  let ?df = "map add_cross_year_confirmed ?M"
  let ?outs = "map (\<lambda>r. bridged r (bridge_of ?df r)) ?df"
  let ?R = "concat (map (\<lambda>r. replicate (max 1 (length (matches df_concordance r))) (?key r)) df_stata)"
  have b: "build_variable_metadata df_stata ddi_data df_concordance = Inr ?outs"
    using assms unfolding build_variable_metadata_def compute_semantic_bridges_eq by simp
  have kM: "map ?key ?M = ?R"
  proof (cases "df_concordance = []")
    case True
    have "concat (map (\<lambda>r. [?key r]) df_stata) = map ?key df_stata"
      by (induction df_stata) auto
    then show ?thesis using True
      by (simp add: matches_Nil with_concordance_sel comp_def)
  next
    case False
    then show ?thesis by (simp add: keys_merge_left)
  qed
  have "map ?key ?outs = map ?key ?M"
    by (simp add: comp_def bridged_sel add_cross_year_confirmed_sel del: if_split)
  then have k: "map ?key ?outs = ?R" using kM by simp
  have one: "?R = map ?key df_stata"
    if "\<forall>r\<in>set df_stata. length (matches df_concordance r) \<le> 1"
    using that by (induction df_stata) (auto simp: max_def)
  show ?thesis using b k one by (intro exI[of _ ?outs]) simp
qed

text \<open>The two example records have one concordance entry each, and each appears
  once in the output.\<close>

theorem output_rows_follow_left_join_witness:
  "marj_base \<noteq> [] \<and>
   (\<exists>outs. build_variable_metadata marj_base no_question_text marj_concordance = Inr outs \<and>
      map year outs = [2002, 2010] \<and> map variable_name outs = [''MRJFLAG'', ''MARJFLAG''])"
proof -
  have h1: "marj_base \<noteq> []" by (simp add: marj_base_def)
  have h2: "\<forall>r\<in>set marj_base. length (matches marj_concordance r) \<le> 1"
    by (simp add: marj_base_def marj_concordance_def matches_def)
  have k: "map (\<lambda>r. (year r, variable_name r)) marj_base = [(2002, ''MRJFLAG''), (2010, ''MARJFLAG'')]"
    by (simp add: marj_base_def)
  from output_rows_follow_left_join[OF h1, of no_question_text marj_concordance] h2
  obtain outs where o: "build_variable_metadata marj_base no_question_text marj_concordance = Inr outs"
    "map (\<lambda>r. (year r, variable_name r)) outs = map (\<lambda>r. (year r, variable_name r)) marj_base"
    by blast
  have "map year outs = map fst (map (\<lambda>r. (year r, variable_name r)) outs)"
    "map variable_name outs = map snd (map (\<lambda>r. (year r, variable_name r)) outs)"
    by (simp_all add: comp_def)
  then have "map year outs = [2002, 2010]" "map variable_name outs = [''MRJFLAG'', ''MARJFLAG'']"
    unfolding o(2) k by simp_all
  then show ?thesis using h1 o(1) by simp
qed

text \<open>
  Claim C6 as stated fails when the concordance has two entries for one pair: with
  the single base record \<open>(2002, MRJFLAG)\<close> and an entry for it from each of the two
  concordance files, the output has two rows for \<open>(2002, MRJFLAG)\<close>.
\<close>

theorem left_join_duplicates_row:
  "map year (take 1 marj_base) = [2002] \<and>
   map variable_name (take 1 marj_base) = [''MRJFLAG''] \<and>
   map_sum id (map year)
     (build_variable_metadata (take 1 marj_base) no_question_text two_file_concordance) =
     Inr [2002, 2002] \<and>
   map_sum id (map variable_name)
     (build_variable_metadata (take 1 marj_base) no_question_text two_file_concordance) =
     Inr [''MRJFLAG'', ''MRJFLAG'']"
  by code_simp

lemma narrow_id_2002: "narrow_id v 2002 = v @ ''_narrow_2002''"
proof -
  have "str_int 2002 = ''2002''" by code_simp
  then show ?thesis by (simp add: narrow_id_def)
qed

text \<open>
  Claim C1, as amended. \<open>cross_year_confirmed\<close> is built from the variable name, the
  concordance file and the confirmed group. Two records \<open>(2002, MRJFLAG, labelA)\<close>
  and \<open>(2010, MRJFLAG, labelB)\<close> with the same variable name, both in the confirmed
  group \<open>MRJ_01\<close> of the same concordance file, share \<open>cross_year_confirmed\<close> and,
  whatever their labels, both receive \<open>cross_year_narrow = MRJFLAG_narrow_2002\<close>
  after the full pipeline.
\<close>

theorem same_variable_same_group_one_bridge:
  "\<exists>o1 o2.
     build_variable_metadata
       [\<lparr>year = 2002, variable_name = ''MRJFLAG'', variable_label = labelA, value_labels = va\<rparr>,
        \<lparr>year = 2010, variable_name = ''MRJFLAG'', variable_label = labelB, value_labels = vb\<rparr>]
       ddi_data
       [\<lparr>conc_year = 2002, conc_variable_name = ''MRJFLAG'', conc_confirmed_group = ''MRJ_01'',
         conc_concordance_file = f\<rparr>,
        \<lparr>conc_year = 2010, conc_variable_name = ''MRJFLAG'', conc_confirmed_group = ''MRJ_01'',
         conc_concordance_file = f\<rparr>] = Inr [o1, o2] \<and>
     cross_year_confirmed o1 = Str (''MRJFLAG_'' @ f @ ''_MRJ_01'') \<and>
     cross_year_confirmed o2 = Str (''MRJFLAG_'' @ f @ ''_MRJ_01'') \<and>
     cross_year_narrow o1 = ''MRJFLAG_narrow_2002'' \<and>
     cross_year_narrow o2 = ''MRJFLAG_narrow_2002''"
proof -
  let ?b1 = "\<lparr>year = 2002, variable_name = ''MRJFLAG'', variable_label = labelA, value_labels = va\<rparr>"
  let ?b2 = "\<lparr>year = 2010, variable_name = ''MRJFLAG'', variable_label = labelB, value_labels = vb\<rparr>"
  let ?c1 = "\<lparr>conc_year = 2002, conc_variable_name = ''MRJFLAG'', conc_confirmed_group = ''MRJ_01'',
         conc_concordance_file = f\<rparr>"
  let ?c2 = "\<lparr>conc_year = 2010, conc_variable_name = ''MRJFLAG'', conc_confirmed_group = ''MRJ_01'',
         conc_concordance_file = f\<rparr>"
  let ?c = "''MRJFLAG_'' @ f @ ''_MRJ_01''"
  define m1 where "m1 = add_cross_year_confirmed (with_concordance ddi_data ?b1 (Str ''MRJ_01'') (Str f))"
  define m2 where "m2 = add_cross_year_confirmed (with_concordance ddi_data ?b2 (Str ''MRJ_01'') (Str f))"
  define df where "df = [m1, m2]"
  have mt: "matches [?c1, ?c2] ?b1 = [?c1]" "matches [?c1, ?c2] ?b2 = [?c2]"
    by (simp_all add: matches_def)
  have ml: "map add_cross_year_confirmed (merge_left ddi_data [?b1, ?b2] [?c1, ?c2]) = df"
    unfolding merge_left_def by (simp add: mt df_def m1_def m2_def)
  have b: "build_variable_metadata [?b1, ?b2] ddi_data [?c1, ?c2] =
      Inr [bridged m1 (bridge_of df m1), bridged m2 (bridge_of df m2)]"
    unfolding build_variable_metadata_def
    by (simp add: ml compute_semantic_bridges_eq) (simp add: df_def)
  have cyc: "cross_year_confirmed m1 = Str ?c" "cross_year_confirmed m2 = Str ?c"
    unfolding m1_def m2_def cross_year_confirmed_add
    by (simp_all add: has_concordance_def with_concordance_sel)
  have sel: "year m1 = 2002" "year m2 = 2010" "variable_name m1 = ''MRJFLAG''"
    "variable_name m2 = ''MRJFLAG''"
    unfolding m1_def m2_def by (simp_all add: add_cross_year_confirmed_sel with_concordance_sel)
  have ne: "?c \<noteq> []" by simp
  have least: "\<And>r'. r' \<in> set df \<Longrightarrow> ?c \<le> str_of (cross_year_confirmed r')"
    using cyc by (auto simp: df_def)
  have k1: "expanded_key df m1 = ?c"
    by (rule expanded_key_least[OF _ cyc(1) ne]) (use least in \<open>simp_all add: df_def\<close>)
  have k2: "expanded_key df m2 = ?c"
    by (rule expanded_key_least[OF _ cyc(2) ne]) (use least in \<open>simp_all add: df_def\<close>)
  let ?T = "map (\<lambda>r. (expanded_key df r, year r, variable_name r)) df"
  have T0: "map g df = [g m1, g m2]" for g :: "meta_row \<Rightarrow> string \<times> int \<times> string"
    by (simp add: df_def)
  have T: "?T = [(?c, 2002, ''MRJFLAG''), (?c, 2010, ''MRJFLAG'')]"
    unfolding T0 k1 k2 sel ..
  have g: "narrow_group_info ?T ?c = Some (2002, ''MRJFLAG'')"
    unfolding narrow_group_info_Some_iff T by auto
  have id: "bridge_id ?T ?c = ''MRJFLAG_narrow_2002''"
    unfolding bridge_id_def g by (simp add: narrow_id_2002)
  have b1: "bridge_of df m1 = ''MRJFLAG_narrow_2002''"
    unfolding bridge_of_def k1 by (rule id)
  have b2: "bridge_of df m2 = ''MRJFLAG_narrow_2002''"
    unfolding bridge_of_def k2 by (rule id)
  show ?thesis
    unfolding b b1 b2
    by (intro exI[of _ "bridged m1 ''MRJFLAG_narrow_2002''"]
        exI[of _ "bridged m2 ''MRJFLAG_narrow_2002''"])
      (simp add: bridged_sel cross_year_narrow_bridged cyc)
qed

text \<open>
  Claim C1 as stated fails: the records \<open>(2002, MRJFLAG)\<close> and \<open>(2010, MARJFLAG)\<close>
  are both in the confirmed group \<open>MRJ_01\<close>, but their \<open>cross_year_confirmed\<close> values
  differ in the variable name, and each record keeps a bridge of its own.
\<close>

theorem different_variables_keep_separate_bridges:
  "map_sum id (map cross_year_confirmed)
     (build_variable_metadata marj_base no_question_text marj_concordance) =
     Inr [Str ''MRJFLAG_ConcatPUFComparability_2019.xlsx_MRJ_01'',
          Str ''MARJFLAG_ConcatPUFComparability_2019.xlsx_MRJ_01''] \<and>
   map_sum id (map cross_year_narrow)
     (build_variable_metadata marj_base no_question_text marj_concordance) =
     Inr [''MRJFLAG_narrow_2002'', ''MARJFLAG_narrow_2010''] \<and>
   map conc_confirmed_group marj_concordance = [''MRJ_01'', ''MRJ_01'']"
  by code_simp

end
